theory Spec2Isabelle
  imports Main "HOL-Library.Sublist" "HOL-Library.Product_Lexorder" "HOL-Library.Multiset"
begin

chapter \<open>The embedding\<close>

section \<open>Python text: characters, classes and string helpers\<close>

text \<open>
  Python text is modelled as \<^typ>\<open>string\<close>: a character is a code point below 256.
  The character classes are Python's for these code points (the classes of \<^verbatim>\<open>str\<close>
  patterns and methods, which follow the Unicode tables); code points from 256 on are
  outside the model.
\<close>

definition newline :: char where
  "newline = CHR 0x0A"

definition in_range :: "char \<Rightarrow> char \<Rightarrow> char \<Rightarrow> bool" where
  "in_range lo hi c = ((of_char lo :: nat) \<le> of_char c \<and> (of_char c :: nat) \<le> of_char hi)"

definition is_digit :: "char \<Rightarrow> bool" where
  "is_digit c = in_range CHR ''0'' CHR ''9'' c"

definition is_alpha :: "char \<Rightarrow> bool" where
  "is_alpha c = (in_range CHR ''a'' CHR ''z'' c \<or> in_range CHR ''A'' CHR ''Z'' c)"

text \<open>
  The code points from 128 to 255 that \<^verbatim>\<open>str.isalnum\<close> accepts: the ordinal
  indicators, the superscript digits, the micro sign, the vulgar fractions, and the letters
  from 0xC0 on except the multiplication and the division sign.
\<close>

definition is_latin1_alnum :: "char \<Rightarrow> bool" where
  "is_latin1_alnum c =
     (c = CHR 0xAA \<or> c = CHR 0xB2 \<or> c = CHR 0xB3 \<or> c = CHR 0xB5 \<or> c = CHR 0xB9 \<or> c = CHR 0xBA \<or>
      in_range (CHR 0xBC) (CHR 0xBE) c \<or> in_range (CHR 0xC0) (CHR 0xD6) c \<or>
      in_range (CHR 0xD8) (CHR 0xF6) c \<or> in_range (CHR 0xF8) (CHR 0xFF) c)"

text \<open>\<^verbatim>\<open>\w\<close>: alphanumeric characters and the underscore.\<close>

definition is_word :: "char \<Rightarrow> bool" where
  "is_word c = (is_alpha c \<or> is_digit c \<or> c = CHR ''_'' \<or> is_latin1_alnum c)"

text \<open>
  \<^verbatim>\<open>\s\<close> and \<^verbatim>\<open>str.strip()\<close>: tab, line feed, vertical tab, form feed, carriage
  return, the four separators 0x1C..0x1F, the space, next line (0x85) and the no-break
  space (0xA0).
\<close>

definition is_space :: "char \<Rightarrow> bool" where
  "is_space c =
     (in_range (CHR 0x09) (CHR 0x0D) c \<or> in_range (CHR 0x1C) (CHR 0x1F) c \<or> c = CHR '' '' \<or>
      c = CHR 0x85 \<or> c = CHR 0xA0)"

text \<open>
  Case mapping. The letters from 0xC0 to 0xDE (the multiplication sign 0xD7 apart) have
  their lower-case form 0x20 further on. The upper-case forms of 0xB5, 0xDF and 0xFF lie
  outside the code points below 256; \<open>upper_char\<close>, which only the case-insensitive
  matching of a character class consults, leaves them unchanged.
\<close>

definition lower_char :: "char \<Rightarrow> char" where
  "lower_char c =
     (case map_of (zip ''ABCDEFGHIJKLMNOPQRSTUVWXYZ'' ''abcdefghijklmnopqrstuvwxyz'') c of
        Some l \<Rightarrow> l
      | None \<Rightarrow>
          if in_range (CHR 0xC0) (CHR 0xDE) c \<and> c \<noteq> CHR 0xD7
          then char_of (of_char c + (32 :: nat)) else c)"

definition upper_char :: "char \<Rightarrow> char" where
  "upper_char c =
     (case map_of (zip ''abcdefghijklmnopqrstuvwxyz'' ''ABCDEFGHIJKLMNOPQRSTUVWXYZ'') c of
        Some u \<Rightarrow> u
      | None \<Rightarrow>
          if in_range (CHR 0xE0) (CHR 0xFE) c \<and> c \<noteq> CHR 0xF7
          then char_of (of_char c - (32 :: nat)) else c)"

text \<open>\<^verbatim>\<open>s.lower()\<close>\<close>

definition lower :: "string \<Rightarrow> string" where
  "lower s = map lower_char s"

text \<open>\<^verbatim>\<open>s.strip()\<close>\<close>

definition strip :: "string \<Rightarrow> string" where
  "strip s = rev (dropWhile is_space (rev (dropWhile is_space s)))"

text \<open>\<^verbatim>\<open>sub in s\<close> for strings.\<close>

fun contains :: "string \<Rightarrow> string \<Rightarrow> bool" where
  "contains sub [] = (sub = [])"
| "contains sub (c # cs) = (prefix sub (c # cs) \<or> contains sub cs)"

text \<open>\<^verbatim>\<open>s.find(c)\<close> and \<^verbatim>\<open>s.rfind(c)\<close> for a one-character needle; \<open>None\<close> is Python's -1.\<close>

fun find_char :: "char \<Rightarrow> string \<Rightarrow> nat option" where
  "find_char x [] = None"
| "find_char x (c # cs) = (if c = x then Some 0 else map_option Suc (find_char x cs))"

fun rfind_char :: "char \<Rightarrow> string \<Rightarrow> nat option" where
  "rfind_char x [] = None"
| "rfind_char x (c # cs) =
     (case rfind_char x cs of
        Some i \<Rightarrow> Some (Suc i)
      | None \<Rightarrow> if c = x then Some 0 else None)"

section \<open>Python regular expressions\<close>

text \<open>
  The patterns of the program use literals, character sets, the dot, \<^verbatim>\<open>\b\<close>, \<^verbatim>\<open>^\<close>,
  \<^verbatim>\<open>$\<close>, optional groups, alternation, and repetition of a single-character atom.
  The matcher is the backtracking one of \<^verbatim>\<open>re\<close>: for a pattern at a position it lists
  the lengths it can consume, in the order in which the engine tries them, so the head of
  the list is the match Python reports.
\<close>

datatype citem = CChar char | CRange char char | CDigit | CWord | CSpace

datatype atom = Lit char | Cls "citem list" | Dot

datatype rx =
    Eps
  | At atom
  | Cat rx rx
  | Alt rx rx
  | Opt rx
  | Rep atom nat "nat option"
  | WordB
  | Bol
  | Eol

record flags =
  ignorecase :: bool
  multiline :: bool
  dotall :: bool

definition no_flags :: flags where
  "no_flags = \<lparr>ignorecase = False, multiline = False, dotall = False\<rparr>"

fun citem_has :: "citem \<Rightarrow> char \<Rightarrow> bool" where
  "citem_has (CChar a) c = (c = a)"
| "citem_has (CRange lo hi) c = in_range lo hi c"
| "citem_has CDigit c = is_digit c"
| "citem_has CWord c = is_word c"
| "citem_has CSpace c = is_space c"

fun atom_match :: "flags \<Rightarrow> atom \<Rightarrow> char \<Rightarrow> bool" where
  "atom_match fl (Lit a) c = (c = a \<or> (ignorecase fl \<and> lower_char c = lower_char a))"
| "atom_match fl (Cls items) c =
     (list_ex (\<lambda>i. citem_has i c) items \<or>
      (ignorecase fl \<and> list_ex (\<lambda>i. citem_has i (lower_char c) \<or> citem_has i (upper_char c)) items))"
| "atom_match fl Dot c = (dotall fl \<or> c \<noteq> newline)"

text \<open>The character before the position reached after consuming \<open>n\<close> characters of \<open>s\<close>.\<close>

definition prev_at :: "char option \<Rightarrow> string \<Rightarrow> nat \<Rightarrow> char option" where
  "prev_at p s n = (if n = 0 then p else if n \<le> length s then Some (s ! (n - 1)) else None)"

definition word_opt :: "char option \<Rightarrow> bool" where
  "word_opt p = (case p of None \<Rightarrow> False | Some c \<Rightarrow> is_word c)"

definition head_opt :: "string \<Rightarrow> char option" where
  "head_opt s = (case s of [] \<Rightarrow> None | c # _ \<Rightarrow> Some c)"

text \<open>
  \<open>rmatch fl r p s\<close>: the pattern \<open>r\<close> is tried at a position where \<open>p\<close> is the
  character before it (\<open>None\<close> at the start of the text) and \<open>s\<close> the text from it on.
\<close>

fun rmatch :: "flags \<Rightarrow> rx \<Rightarrow> char option \<Rightarrow> string \<Rightarrow> nat list" where
  "rmatch fl Eps p s = [0]"
| "rmatch fl (At a) p s =
     (case s of [] \<Rightarrow> [] | c # _ \<Rightarrow> if atom_match fl a c then [1] else [])"
| "rmatch fl (Cat a b) p s =
     concat (map (\<lambda>n. map (\<lambda>m. n + m) (rmatch fl b (prev_at p s n) (drop n s))) (rmatch fl a p s))"
| "rmatch fl (Alt a b) p s = rmatch fl a p s @ rmatch fl b p s"
| "rmatch fl (Opt a) p s = rmatch fl a p s @ [0]"
| "rmatch fl (Rep a lo hi) p s =
     (let k = length (takeWhile (atom_match fl a) s);
          m = (case hi of None \<Rightarrow> k | Some h \<Rightarrow> min h k)
      in rev [lo ..< Suc m])"
| "rmatch fl WordB p s = (if word_opt p \<noteq> word_opt (head_opt s) then [0] else [])"
| "rmatch fl Bol p s = (if p = None \<or> (multiline fl \<and> p = Some newline) then [0] else [])"
| "rmatch fl Eol p s =
     (if s = [] \<or> s = [newline] \<or> (multiline fl \<and> head_opt s = Some newline) then [0] else [])"

text \<open>A pattern written as the sequence of its parts.\<close>

definition cats :: "rx list \<Rightarrow> rx" where
  "cats rs = foldr Cat rs Eps"

text \<open>\<^verbatim>\<open>re.match\<close>: the length matched at the start of the text.\<close>

definition re_match :: "flags \<Rightarrow> rx \<Rightarrow> string \<Rightarrow> nat option" where
  "re_match fl r s = (case rmatch fl r None s of [] \<Rightarrow> None | n # _ \<Rightarrow> Some n)"

text \<open>\<^verbatim>\<open>re.search\<close>: start and length of the leftmost match.\<close>

fun search_from :: "flags \<Rightarrow> rx \<Rightarrow> char option \<Rightarrow> string \<Rightarrow> nat \<Rightarrow> (nat \<times> nat) option" where
  "search_from fl r p [] i = (case rmatch fl r p [] of [] \<Rightarrow> None | n # _ \<Rightarrow> Some (i, n))"
| "search_from fl r p (c # cs) i =
     (case rmatch fl r p (c # cs) of
        [] \<Rightarrow> search_from fl r (Some c) cs (Suc i)
      | n # _ \<Rightarrow> Some (i, n))"

definition re_search :: "flags \<Rightarrow> rx \<Rightarrow> string \<Rightarrow> (nat \<times> nat) option" where
  "re_search fl r s = search_from fl r None s 0"

text \<open>
  \<^verbatim>\<open>re.findall\<close> for a pattern without groups: the matched substrings, left to right,
  without overlap. The counter \<open>k\<close> is the number of characters still inside the match
  found last. No pattern of the program matches the empty string; an empty match is
  recorded and the scan moves on by one character.
\<close>

fun findall_from :: "flags \<Rightarrow> rx \<Rightarrow> char option \<Rightarrow> string \<Rightarrow> nat \<Rightarrow> string list" where
  "findall_from fl r p [] k = (if k = 0 \<and> rmatch fl r p [] \<noteq> [] then [[]] else [])"
| "findall_from fl r p (c # cs) k =
     (if 0 < k then findall_from fl r (Some c) cs (k - 1)
      else case rmatch fl r p (c # cs) of
             [] \<Rightarrow> findall_from fl r (Some c) cs 0
           | n # _ \<Rightarrow> take n (c # cs) # findall_from fl r (Some c) cs (n - 1))"

definition re_findall :: "flags \<Rightarrow> rx \<Rightarrow> string \<Rightarrow> string list" where
  "re_findall fl r s = findall_from fl r None s 0"

text \<open>\<^verbatim>\<open>re.sub(pattern, '', s)\<close>: every match is deleted.\<close>

fun sub_from :: "flags \<Rightarrow> rx \<Rightarrow> char option \<Rightarrow> string \<Rightarrow> nat \<Rightarrow> string" where
  "sub_from fl r p [] k = []"
| "sub_from fl r p (c # cs) k =
     (if 0 < k then sub_from fl r (Some c) cs (k - 1)
      else case rmatch fl r p (c # cs) of
             [] \<Rightarrow> c # sub_from fl r (Some c) cs 0
           | n # _ \<Rightarrow> if n = 0 then c # sub_from fl r (Some c) cs 0
                      else sub_from fl r (Some c) cs (n - 1))"

definition re_sub_empty :: "flags \<Rightarrow> rx \<Rightarrow> string \<Rightarrow> string" where
  "re_sub_empty fl r s = sub_from fl r None s 0"

text \<open>
  Two syntactic readings of a pattern, used to reason about it: the characters it can
  consume, and whether it ends with \<^verbatim>\<open>$\<close>.
\<close>

fun rx_chars :: "flags \<Rightarrow> rx \<Rightarrow> char \<Rightarrow> bool" where
  "rx_chars fl Eps c = False"
| "rx_chars fl (At a) c = atom_match fl a c"
| "rx_chars fl (Cat a b) c = (rx_chars fl a c \<or> rx_chars fl b c)"
| "rx_chars fl (Alt a b) c = (rx_chars fl a c \<or> rx_chars fl b c)"
| "rx_chars fl (Opt a) c = rx_chars fl a c"
| "rx_chars fl (Rep a lo hi) c = atom_match fl a c"
| "rx_chars fl WordB c = False"
| "rx_chars fl Bol c = False"
| "rx_chars fl Eol c = False"

fun ends_eol :: "rx \<Rightarrow> bool" where
  "ends_eol Eol = True"
| "ends_eol (Cat a b) = (if b = Eps then ends_eol a else ends_eol b)"
| "ends_eol r = False"

section \<open>Guardrails (\<^verbatim>\<open>backend/guardrails.py\<close>)\<close>

subsection \<open>The class constants\<close>

definition ic_flags :: flags where
  "ic_flags = \<lparr>ignorecase = True, multiline = False, dotall = False\<rparr>"

definition digit4 :: rx where
  "digit4 = Rep (Cls [CDigit]) 4 (Some 4)"

definition card_sep :: rx where
  "card_sep = Opt (At (Cls [CSpace, CChar CHR ''-'']))"

text \<open>\<^verbatim>\<open>\b\d{4}[\s-]?\d{4}[\s-]?\d{4}[\s-]?\d{4}\b\<close>\<close>

definition credit_card_rx :: rx where
  "credit_card_rx = cats [WordB, digit4, card_sep, digit4, card_sep, digit4, card_sep, digit4, WordB]"

text \<open>\<^verbatim>\<open>\b\d{3}-\d{2}-\d{4}\b\<close>\<close>

definition ssn_rx :: rx where
  "ssn_rx = cats [WordB, Rep (Cls [CDigit]) 3 (Some 3), At (Lit CHR ''-''),
     Rep (Cls [CDigit]) 2 (Some 2), At (Lit CHR ''-''), digit4, WordB]"

text \<open>\<^verbatim>\<open>password[\s:=]+[\w@#$%]+\<close>\<close>

definition password_rx :: rx where
  "password_rx = cats (map (\<lambda>c. At (Lit c)) ''password'' @
     [Rep (Cls [CSpace, CChar CHR '':'', CChar CHR ''='']) 1 None,
      Rep (Cls [CWord, CChar CHR ''@'', CChar CHR ''#'', CChar CHR ''$'', CChar CHR ''%'']) 1 None])"

text \<open>\<^verbatim>\<open>[Aa][Pp][Ii]_?[Kk][Ee][Yy][\s:=]+[\w-]+\<close>\<close>

definition api_key_rx :: rx where
  "api_key_rx = cats
     [At (Cls [CChar CHR ''A'', CChar CHR ''a'']), At (Cls [CChar CHR ''P'', CChar CHR ''p'']),
      At (Cls [CChar CHR ''I'', CChar CHR ''i'']), Opt (At (Lit CHR ''_'')),
      At (Cls [CChar CHR ''K'', CChar CHR ''k'']), At (Cls [CChar CHR ''E'', CChar CHR ''e'']),
      At (Cls [CChar CHR ''Y'', CChar CHR ''y'']),
      Rep (Cls [CSpace, CChar CHR '':'', CChar CHR ''='']) 1 None,
      Rep (Cls [CWord, CChar CHR ''-'']) 1 None]"

text \<open>\<^verbatim>\<open>\b[A-Za-z0-9._%+-]+@[A-Za-z0-9.-]+\.[A-Z|a-z]{2,}\b\<close>\<close>

definition email_rx :: rx where
  "email_rx = cats
     [WordB,
      Rep (Cls [CRange CHR ''A'' CHR ''Z'', CRange CHR ''a'' CHR ''z'', CRange CHR ''0'' CHR ''9'',
                CChar CHR ''.'', CChar CHR ''_'', CChar CHR ''%'', CChar CHR ''+'', CChar CHR ''-'']) 1 None,
      At (Lit CHR ''@''),
      Rep (Cls [CRange CHR ''A'' CHR ''Z'', CRange CHR ''a'' CHR ''z'', CRange CHR ''0'' CHR ''9'',
                CChar CHR ''.'', CChar CHR ''-'']) 1 None,
      At (Lit CHR ''.''),
      Rep (Cls [CRange CHR ''A'' CHR ''Z'', CChar CHR ''|'', CRange CHR ''a'' CHR ''z'']) 2 None,
      WordB]"

definition SENSITIVE_PATTERNS :: "(string \<times> rx) list" where
  "SENSITIVE_PATTERNS =
     [(''credit_card'', credit_card_rx), (''ssn'', ssn_rx), (''password'', password_rx),
      (''api_key'', api_key_rx), (''email'', email_rx)]"

definition DANGEROUS_KEYWORDS :: "string list" where
  "DANGEROUS_KEYWORDS = [''delete all'', ''remove all'', ''drop table'', ''truncate'', ''format drive'']"

text \<open>Operation type, allowed count, window in seconds.\<close>

definition RATE_LIMITS :: "(string \<times> nat \<times> nat) list" where
  "RATE_LIMITS = [(''email_send'', 10, 3600), (''calendar_create'', 20, 3600), (''api_calls'', 100, 60)]"

subsection \<open>Values and state\<close>

text \<open>
  A \<^verbatim>\<open>datetime\<close> is its number of microseconds from a fixed origin, so
  \<^verbatim>\<open>(now - t).total_seconds() < window\<close> is \<open>now - t < window * 1000000\<close>. The clock
  is not part of the program: each reading of \<^verbatim>\<open>datetime.now()\<close> is an argument.
\<close>

type_synonym datetime = int

record action =
  atype :: string
  timestamp :: datetime
  recipient :: "string option"

text \<open>
  The warning texts start with symbols outside ASCII and embed formatted values; each is
  kept as a constructor with the values it embeds:
  \<^item> \<open>SensitiveDetected ps\<close>: "Sensitive content detected: \{ps\}" (email check);
  \<^item> \<open>RateWarning r\<close>: the reason \<open>r\<close> of the rate check after the no-entry sign;
  \<^item> \<open>InvalidAddress to\<close>: "Invalid email address: \{to\}";
  \<^item> \<open>MassEmail n\<close>: "Mass email to \{n\} recipients";
  \<^item> \<open>SensitiveContent ps\<close>: "Sensitive content: \{ps\}" (default checks).
\<close>

datatype warning =
    SensitiveDetected "(string \<times> nat) list"
  | RateWarning string
  | InvalidAddress string
  | MassEmail nat
  | SensitiveContent "(string \<times> nat) list"

datatype pyval =
    PNone
  | PBool bool
  | PInt int
  | PStr string
  | PTime datetime
  | PWarn warning
  | PList "pyval list"

text \<open>A result dictionary, in the order its keys are written.\<close>

type_synonym pydict = "(string \<times> pyval) list"

record sensitive_check =
  detected :: bool
  patterns :: "(string \<times> nat) list"

record dangerous_check =
  dangerous :: bool
  reason :: "string option"
  severity :: string

text \<open>\<^verbatim>\<open>str(n)\<close> for a natural number.\<close>

function str_nat :: "nat \<Rightarrow> string" where
  "str_nat n = (if n < 10 then [''0123456789'' ! n] else str_nat (n div 10) @ [''0123456789'' ! (n mod 10)])"
  by pat_completeness auto
termination
  by (relation "measure id") auto

declare str_nat.simps [simp del]

subsection \<open>The checks\<close>

definition check_sensitive_content :: "string \<Rightarrow> sensitive_check" where
  "check_sensitive_content text =
     (let detected_patterns =
            concat (map (\<lambda>(pattern_name, pattern).
                      let matches = re_findall ic_flags pattern text
                      in if matches \<noteq> [] then [(pattern_name, length matches)] else [])
                    SENSITIVE_PATTERNS)
      in \<lparr>detected = 0 < length detected_patterns, patterns = detected_patterns\<rparr>)"

text \<open>
  \<open>str_of\<close> stands for Python's built-in \<^verbatim>\<open>str\<close> on the argument dictionary.
\<close>

definition check_dangerous_action ::
  "((string \<times> string) list \<Rightarrow> string) \<Rightarrow> string \<Rightarrow> (string \<times> string) list \<Rightarrow> dangerous_check" where
  "check_dangerous_action str_of act args =
     (let action_text = lower (act @ '' '' @ str_of args)
      in case find (\<lambda>keyword. contains keyword action_text) DANGEROUS_KEYWORDS of
           Some keyword \<Rightarrow>
             \<lparr>dangerous = True,
              reason = Some (''Contains dangerous keyword: '' @ [CHR 0x27] @ keyword @ [CHR 0x27]),
              severity = ''high''\<rparr>
         | None \<Rightarrow>
             if contains ''delete'' act \<and>
                list_ex (\<lambda>k. map_of args k \<noteq> None) [''all'', ''multiple'', ''batch'']
             then \<lparr>dangerous = True, reason = Some ''Bulk delete operation detected'',
                   severity = ''medium''\<rparr>
             else if act \<in> set [''file_delete'', ''file_write''] \<and> contains ''..'' (str_of args)
             then \<lparr>dangerous = True, reason = Some ''Potential directory traversal attack'',
                   severity = ''high''\<rparr>
             else \<lparr>dangerous = False, reason = None, severity = ''none''\<rparr>)"

text \<open>
  In the blocked branch the list \<open>recent\<close> holds at least \<open>max_count\<close> entries and every
  limit of the table is positive, so \<^verbatim>\<open>recent_actions[0]\<close> exists.
\<close>

definition recent_actions :: "action list \<Rightarrow> datetime \<Rightarrow> string \<Rightarrow> nat \<Rightarrow> action list" where
  "recent_actions action_history now operation_type window =
     filter (\<lambda>a. atype a = operation_type \<and> now - timestamp a < int window * 1000000)
       action_history"

definition check_rate_limit :: "action list \<Rightarrow> datetime \<Rightarrow> string \<Rightarrow> pydict" where
  "check_rate_limit action_history now operation_type =
     (case map_of RATE_LIMITS operation_type of
        None \<Rightarrow> [(''allowed'', PBool True), (''reason'', PStr ''No limit defined'')]
      | Some (max_count, window) \<Rightarrow>
          let recent = recent_actions action_history now operation_type window
          in if max_count \<le> length recent
             then [(''allowed'', PBool False),
                   (''reason'', PStr (''Rate limit exceeded: '' @ str_nat max_count @ '' per '' @
                                     str_nat window @ ''s'')),
                   (''reset_time'', PTime (timestamp (hd recent)))]
             else [(''allowed'', PBool True),
                   (''remaining'', PInt (int max_count - int (length recent)))])"

text \<open>\<^verbatim>\<open>^[a-zA-Z0-9._%+-]+@[a-zA-Z0-9.-]+\.[a-zA-Z]{2,}$\<close>, used with \<^verbatim>\<open>re.match\<close>.\<close>

definition valid_email_rx :: rx where
  "valid_email_rx = cats
     [Bol,
      Rep (Cls [CRange CHR ''a'' CHR ''z'', CRange CHR ''A'' CHR ''Z'', CRange CHR ''0'' CHR ''9'',
                CChar CHR ''.'', CChar CHR ''_'', CChar CHR ''%'', CChar CHR ''+'', CChar CHR ''-'']) 1 None,
      At (Lit CHR ''@''),
      Rep (Cls [CRange CHR ''a'' CHR ''z'', CRange CHR ''A'' CHR ''Z'', CRange CHR ''0'' CHR ''9'',
                CChar CHR ''.'', CChar CHR ''-'']) 1 None,
      At (Lit CHR ''.''),
      Rep (Cls [CRange CHR ''a'' CHR ''z'', CRange CHR ''A'' CHR ''Z'']) 2 None,
      Eol]"

definition is_valid_email :: "string \<Rightarrow> bool" where
  "is_valid_email email = (re_match no_flags valid_email_rx email \<noteq> None)"

text \<open>\<^verbatim>\<open>re.split("[,;]", to)\<close>\<close>

fun split_recipients :: "string \<Rightarrow> string list" where
  "split_recipients [] = [[]]"
| "split_recipients (c # cs) =
     (if c = CHR '','' \<or> c = CHR '';'' then [] # split_recipients cs
      else case split_recipients cs of
             r # rs \<Rightarrow> (c # r) # rs
           | [] \<Rightarrow> [[c]])"

definition allowed :: "pydict \<Rightarrow> bool" where
  "allowed rate_check = (map_of rate_check ''allowed'' = Some (PBool True))"

definition reason_text :: "pydict \<Rightarrow> string" where
  "reason_text rate_check = (case map_of rate_check ''reason'' of Some (PStr r) \<Rightarrow> r | _ \<Rightarrow> [])"

text \<open>
  \<open>check_email_send\<close> reads the clock twice: \<open>now\<close> inside the rate check and
  \<open>now_log\<close> when it logs the action. It returns the result dictionary and the new
  \<^verbatim>\<open>action_history\<close>.
\<close>

definition check_email_send ::
  "action list \<Rightarrow> datetime \<Rightarrow> datetime \<Rightarrow> string \<Rightarrow> string \<Rightarrow> string \<Rightarrow> pydict \<times> action list" where
  "check_email_send action_history now now_log to subject body =
     (let sensitive = check_sensitive_content body;
          warnings = (if detected sensitive then [SensitiveDetected (patterns sensitive)] else []);
          requires_human = detected sensitive;
          rate_check = check_rate_limit action_history now ''email_send''
      in if \<not> allowed rate_check
         then ([(''approved'', PBool False),
                (''warnings'', PList (map PWarn (warnings @ [RateWarning (reason_text rate_check)]))),
                (''requires_human'', PBool False),
                (''reason'', PStr ''Rate limit exceeded'')], action_history)
         else if \<not> is_valid_email to
         then ([(''approved'', PBool False),
                (''warnings'', PList (map PWarn (warnings @ [InvalidAddress to]))),
                (''requires_human'', PBool False),
                (''reason'', PStr ''Invalid recipient'')], action_history)
         else
           let recipients = map strip (split_recipients to);
               mass = ((CHR '','' \<in> set to \<or> CHR '';'' \<in> set to) \<and> 5 < length recipients);
               warnings = (if mass then warnings @ [MassEmail (length recipients)] else warnings);
               requires_human = (if mass then True else requires_human)
           in ([(''approved'', PBool True),
                (''warnings'', PList (map PWarn warnings)),
                (''requires_human'', PBool requires_human)],
               action_history @ [\<lparr>atype = ''email_send'', timestamp = now_log, recipient = Some to\<rparr>]))"

text \<open>
  A call of \<open>check_email_send\<close> with its two clock readings, and a sequence of calls
  on the one instance: the results in order, and the final history.
\<close>

record send_call =
  check_time :: datetime
  log_time :: datetime
  call_to :: string
  call_subject :: string
  call_body :: string

fun send_all :: "action list \<Rightarrow> send_call list \<Rightarrow> pydict list \<times> action list" where
  "send_all action_history [] = ([], action_history)"
| "send_all action_history (c # calls) =
     (case check_email_send action_history (check_time c) (log_time c) (call_to c)
             (call_subject c) (call_body c) of
        (result, action_history') \<Rightarrow>
          (case send_all action_history' calls of
             (results, final) \<Rightarrow> (result # results, final)))"

text \<open>The clock is read inside the rate check only for \<^verbatim>\<open>"create"\<close>, and again to log.\<close>

definition check_calendar_operation ::
  "action list \<Rightarrow> datetime \<Rightarrow> datetime \<Rightarrow> string \<Rightarrow> (string \<times> string) list \<Rightarrow> pydict \<times> action list" where
  "check_calendar_operation action_history now now_log operation args =
     (let rate_check = check_rate_limit action_history now ''calendar_create''
      in if operation = ''create'' \<and> \<not> allowed rate_check
         then ([(''approved'', PBool False),
                (''warnings'', PList [PWarn (RateWarning (reason_text rate_check))])], action_history)
         else ([(''approved'', PBool True), (''warnings'', PList [])],
               action_history @ [\<lparr>atype = ''calendar_create'', timestamp = now_log, recipient = None\<rparr>]))"

definition get_arg :: "(string \<times> string) list \<Rightarrow> string \<Rightarrow> string" where
  "get_arg args k = (case map_of args k of None \<Rightarrow> [] | Some v \<Rightarrow> v)"

text \<open>
  The module-level function works on the singleton instance; its \<^verbatim>\<open>action_history\<close>
  is passed in and returned.
\<close>

definition apply_guardrails ::
  "((string \<times> string) list \<Rightarrow> string) \<Rightarrow> action list \<Rightarrow> datetime \<Rightarrow> datetime \<Rightarrow> string \<Rightarrow>
     (string \<times> string) list \<Rightarrow> pydict \<times> action list" where
  "apply_guardrails str_of action_history now now_log act args =
     (if act = ''user_request'' then
        let text_to_check = get_arg args ''input'';
            dang = check_dangerous_action str_of act args;
            critical_patterns = [''credit_card'', ''ssn'', ''password'', ''api_key''];
            has_critical =
              list_ex (\<lambda>pattern_name.
                         case map_of SENSITIVE_PATTERNS pattern_name of
                           None \<Rightarrow> False
                         | Some pattern \<Rightarrow> re_search ic_flags pattern text_to_check \<noteq> None)
                      critical_patterns
        in ([(''approved'', PBool (\<not> dangerous dang \<and> \<not> has_critical)),
             (''reason'', if dangerous dang \<or> has_critical
                          then (case reason dang of None \<Rightarrow> PNone | Some r \<Rightarrow> PStr r)
                          else PNone),
             (''warnings'', PList []),
             (''requires_human'', PBool False)], action_history)
      else
        let text_to_check = str_of args;
            sensitive = check_sensitive_content text_to_check;
            dang = check_dangerous_action str_of act args
        in if act = ''gmail_send_email''
           then check_email_send action_history now now_log
                  (get_arg args ''to'') (get_arg args ''subject'') (get_arg args ''body'')
           else if act \<in> set [''calendar_create_event'', ''calendar_delete_event'']
           then check_calendar_operation action_history now now_log
                  (if contains ''create'' act then ''create'' else ''delete'') args
           else ([(''approved'', PBool (\<not> dangerous dang \<and> \<not> detected sensitive)),
                  (''warnings'',
                     PList [if dangerous dang
                            then (case reason dang of None \<Rightarrow> PNone | Some r \<Rightarrow> PStr r)
                            else PNone,
                            if detected sensitive then PWarn (SensitiveContent (patterns sensitive))
                            else PNone]),
                  (''requires_human'', PBool (dangerous dang \<or> detected sensitive))],
                 action_history))"

subsection \<open>A card number in a text\<close>

text \<open>
  What the credit-card pattern is written to find, said of the text alone: four groups of
  four digits, two neighbouring groups joined directly or by one white-space character or
  hyphen, standing free, that is, with no word character just before or just after.
\<close>

definition digit_group :: "string \<Rightarrow> bool" where
  "digit_group g = (length g = 4 \<and> list_all is_digit g)"

definition card_gap :: "string \<Rightarrow> bool" where
  "card_gap s = (s = [] \<or> (length s = 1 \<and> (is_space (hd s) \<or> hd s = CHR ''-'')))"

definition stands_free :: "string \<Rightarrow> string \<Rightarrow> bool" where
  "stands_free pre post = ((pre = [] \<or> \<not> is_word (last pre)) \<and> (post = [] \<or> \<not> is_word (hd post)))"

section \<open>Free slots of a day (\<^verbatim>\<open>backend/tools/calendar_tools.py\<close>)\<close>

text \<open>
  The calendar service is not part of the program. What it returns for the day is an
  argument: the events in start order, each with the start and end that
  \<^verbatim>\<open>datetime.fromisoformat\<close> makes of its text. A text with a UTC offset gives an
  aware value, one without gives a naive value, and one it cannot read raises
  \<^verbatim>\<open>ValueError\<close>. The window edges are naive, and Python raises \<^verbatim>\<open>TypeError\<close> when it
  subtracts or compares a naive and an aware value; the function does not catch it.
\<close>

datatype pydatetime = Naive datetime | Aware datetime | Unreadable

datatype py_error = TypeError | ValueError

definition minute_us :: int where
  "minute_us = 60 * 1000000"

definition hour_us :: int where
  "hour_us = 60 * minute_us"

definition pad2 :: "nat \<Rightarrow> string" where
  "pad2 n = [''0123456789'' ! ((n div 10) mod 10), ''0123456789'' ! (n mod 10)]"

text \<open>\<^verbatim>\<open>t.strftime('%H:%M')\<close>; the origin of \<^typ>\<open>datetime\<close> is a midnight.\<close>

definition hhmm :: "datetime \<Rightarrow> string" where
  "hhmm t = pad2 (nat ((t div hour_us) mod 24)) @ '':'' @ pad2 (nat ((t div minute_us) mod 60))"

text \<open>
  The loop over the events: \<open>current_time\<close> and \<open>free_slots\<close> are the loop's
  variables, and the result is their value after the last event.
\<close>

fun scan_events ::
  "int \<Rightarrow> datetime \<Rightarrow> (string \<times> string) list \<Rightarrow> (pydatetime \<times> pydatetime) list \<Rightarrow>
     py_error + datetime \<times> (string \<times> string) list" where
  "scan_events duration_minutes current_time free_slots [] = Inr (current_time, free_slots)"
| "scan_events duration_minutes current_time free_slots ((ev_start, ev_end) # events) =
     (case ev_start of
        Unreadable \<Rightarrow> Inl ValueError
      | Aware _ \<Rightarrow> Inl TypeError
      | Naive event_start \<Rightarrow>
          let free_slots =
                (if duration_minutes * minute_us \<le> event_start - current_time
                 then free_slots @ [(hhmm current_time, hhmm event_start)]
                 else free_slots)
          in case ev_end of
               Unreadable \<Rightarrow> Inl ValueError
             | Aware _ \<Rightarrow> Inl TypeError
             | Naive event_end \<Rightarrow>
                 scan_events duration_minutes (max current_time event_end) free_slots events)"

text \<open>
  \<open>find_free_slots day events duration_minutes\<close>: the list \<^verbatim>\<open>free_slots\<close> that the
  function has built when it starts to format its answer; \<open>day\<close> is the midnight of the
  date asked for.
\<close>

definition find_free_slots ::
  "datetime \<Rightarrow> (pydatetime \<times> pydatetime) list \<Rightarrow> int \<Rightarrow> py_error + (string \<times> string) list" where
  "find_free_slots day events duration_minutes =
     (let start_time = day + 9 * hour_us;
          end_time = day + 17 * hour_us
      in case scan_events duration_minutes start_time [] events of
           Inl e \<Rightarrow> Inl e
         | Inr (current_time, free_slots) \<Rightarrow>
             Inr (if duration_minutes * minute_us \<le> end_time - current_time
                  then free_slots @ [(hhmm current_time, hhmm end_time)]
                  else free_slots))"

text \<open>
  The answers of the tool, one constructor for each text it returns:
  \<^item> \<open>NotConnected\<close>: "Failed to connect to Google Calendar.";
  \<^item> \<open>InvalidDate\<close>: "Invalid date format. Use YYYY-MM-DD ...";
  \<^item> \<open>NoFreeSlots d date\<close>: "No free slots of \{d\} minutes found on \{date\}.";
  \<^item> \<open>FoundSlots date slots\<close>: "Found \{n\} free slots on \{date\}:" and one numbered
    line "start - end" for each slot.
  \<open>parsed\<close> is what \<^verbatim>\<open>datetime.strptime(date, '%Y-%m-%d')\<close> gives: the midnight of
  the date, or \<open>None\<close> for \<^verbatim>\<open>ValueError\<close>.
\<close>

datatype slots_answer =
    NotConnected
  | InvalidDate
  | NoFreeSlots int string
  | FoundSlots string "(string \<times> string) list"

definition calendar_find_free_slots ::
  "bool \<Rightarrow> string \<Rightarrow> datetime option \<Rightarrow> (pydatetime \<times> pydatetime) list \<Rightarrow> int \<Rightarrow>
     py_error + slots_answer" where
  "calendar_find_free_slots service date parsed events duration_minutes =
     (if \<not> service then Inr NotConnected
      else case parsed of
             None \<Rightarrow> Inr InvalidDate
           | Some day \<Rightarrow>
               (case find_free_slots day events duration_minutes of
                  Inl ValueError \<Rightarrow> Inr InvalidDate
                | Inl TypeError \<Rightarrow> Inl TypeError
                | Inr free_slots \<Rightarrow>
                    if free_slots = [] then Inr (NoFreeSlots duration_minutes date)
                    else Inr (FoundSlots date free_slots)))"

section \<open>Task agent (\<^verbatim>\<open>backend/agents/task_agent.py\<close>)\<close>

record task =
  task_id :: string
  title :: string
  status :: string
  dependencies :: "string list"

text \<open>An entry of \<^verbatim>\<open>blocked_tasks\<close>: task id, task title, \<^verbatim>\<open>blocked_by\<close>.\<close>

datatype blocked = Blocked string string "string list"

text \<open>An entry of \<^verbatim>\<open>blocking_tasks\<close>: task id, task title, \<^verbatim>\<open>blocking_count\<close>.\<close>

datatype blocking = Blocking string string nat

definition incomplete_deps :: "task list \<Rightarrow> task \<Rightarrow> string list" where
  "incomplete_deps tasks t =
     filter (\<lambda>dep. list_ex (\<lambda>u. task_id u = dep \<and> status u \<noteq> ''completed'') tasks) (dependencies t)"

definition blocked_tasks :: "task list \<Rightarrow> blocked list" where
  "blocked_tasks tasks =
     concat (map (\<lambda>t. if dependencies t \<noteq> [] \<and> incomplete_deps tasks t \<noteq> []
                      then [Blocked (task_id t) (title t) (incomplete_deps tasks t)]
                      else [])
                 tasks)"

text \<open>\<^verbatim>\<open>all_deps\<close> is a Python set.\<close>

definition all_deps :: "task list \<Rightarrow> string set" where
  "all_deps tasks = set (concat (map dependencies tasks))"

definition blocking_entry :: "task list \<Rightarrow> string \<Rightarrow> blocking list" where
  "blocking_entry tasks dep_id =
     (case find (\<lambda>t. task_id t = dep_id) tasks of
        None \<Rightarrow> []
      | Some blocking_task \<Rightarrow>
          if status blocking_task \<noteq> ''completed''
          then [Blocking (task_id blocking_task) (title blocking_task)
                  (length (filter (\<lambda>t. dep_id \<in> set (dependencies t)) tasks))]
          else [])"

text \<open>
  Python does not fix the order in which a set of strings is iterated: \<open>order\<close> is the
  order in which the loop visits \<^verbatim>\<open>all_deps\<close>, any list of its elements without
  repetition. The result is the triple of \<^verbatim>\<open>blocking_tasks\<close>, \<^verbatim>\<open>blocked_tasks\<close> and
  \<^verbatim>\<open>critical_path\<close>.
\<close>

definition iteration_of :: "string list \<Rightarrow> string set \<Rightarrow> bool" where
  "iteration_of order S = (set order = S \<and> distinct order)"

definition identify_blockers ::
  "string list \<Rightarrow> task list \<Rightarrow> blocking list \<times> blocked list \<times> string list" where
  "identify_blockers order tasks =
     (concat (map (blocking_entry tasks) order), blocked_tasks tasks, [])"

text \<open>
  An entry of the list \<^verbatim>\<open>prioritized\<close>, with the two keys of its
  \<^verbatim>\<open>"prioritization"\<close> that the final sort reads; \<open>None\<close> is a missing key. A priority
  is a text and an urgency score an integer, as the prompt of \<^verbatim>\<open>prioritize_tasks\<close> asks
  for them (a score that Python cannot negate would make the sort raise \<^verbatim>\<open>TypeError\<close>).

  The module \<^verbatim>\<open>task_agent.py\<close> does not import \<^verbatim>\<open>extract_json_from_response\<close>, so the
  body of the \<^verbatim>\<open>try\<close> raises \<^verbatim>\<open>NameError\<close> before its \<^verbatim>\<open>append\<close>: each entry that the
  loop of \<^verbatim>\<open>prioritize_tasks\<close> hands to the sort is the one of the \<^verbatim>\<open>except\<close> branch, with
  priority "medium" and urgency score 5. The sort itself is modelled for every list of
  entries.
\<close>

record prioritized =
  p_task_id :: string
  priority :: "string option"
  urgency_score :: "int option"

definition priority_order :: "(string \<times> nat) list" where
  "priority_order = [(''urgent'', 0), (''high'', 1), (''medium'', 2), (''low'', 3)]"

definition bucket :: "prioritized \<Rightarrow> nat" where
  "bucket x =
     (case map_of priority_order (case priority x of None \<Rightarrow> ''medium'' | Some p \<Rightarrow> p) of
        None \<Rightarrow> 2
      | Some n \<Rightarrow> n)"

definition urgency :: "prioritized \<Rightarrow> int" where
  "urgency x = (case urgency_score x of None \<Rightarrow> 5 | Some u \<Rightarrow> u)"

text \<open>The key of the sort: a pair, compared first by bucket, then by negated urgency.\<close>

definition prio_key :: "prioritized \<Rightarrow> nat \<times> int" where
  "prio_key x = (bucket x, - urgency x)"

text \<open>\<^verbatim>\<open>prioritized.sort(key=...)\<close>, a stable sort, as the last step of \<^verbatim>\<open>prioritize_tasks\<close>.\<close>

definition sort_prioritized :: "prioritized list \<Rightarrow> prioritized list" where
  "sort_prioritized xs = sort_key prio_key xs"

section \<open>Router (\<^verbatim>\<open>backend/orchestrator_modern.py\<close>)\<close>

definition check_loop :: "string \<Rightarrow> string list \<Rightarrow> bool" where
  "check_loop current_agent delegation_history =
     (if delegation_history = [] then False
      else if last delegation_history = current_agent then True
      else if 2 \<le> length delegation_history \<and>
              delegation_history ! (length delegation_history - 2) = current_agent then True
      else if 2 \<le> count_list delegation_history current_agent then True
      else False)"

section \<open>JSON extraction (\<^verbatim>\<open>backend/utils.py\<close>)\<close>

subsection \<open>\<^verbatim>\<open>json.loads\<close>\<close>

text \<open>
  \<^verbatim>\<open>json.loads\<close> belongs to Python's library. It is modelled by a lexer and a parser
  over the grammar its decoder accepts: white space is space, tab, line feed and
  carriage return; strings are read in strict mode (no control character, the escapes
  of \<^verbatim>\<open>BACKSLASH\<close> and \<^verbatim>\<open>\uXXXX\<close> with surrogate pairs); numbers follow \<^verbatim>\<open>NUMBER_RE\<close>;
  \<^verbatim>\<open>NaN\<close>, \<^verbatim>\<open>Infinity\<close> and \<^verbatim>\<open>-Infinity\<close> are accepted. Every failure is the one error
  \<^verbatim>\<open>JSONDecodeError\<close>; its message and position are not modelled. A string value is
  the list of its code points, a float is kept as its text, and an object is its list
  of pairs in insertion order, a later value replacing an earlier one for the same key.
  The interpreter's limits on nesting depth and on the digits of an integer are outside
  the model.
\<close>

datatype json =
    JNull
  | JBool bool
  | JInt int
  | JFloat string
  | JStr "nat list"
  | JArr "json list"
  | JObj "(nat list \<times> json) list"

datatype json_error = JSONDecodeError

datatype token =
    TLBrace | TRBrace | TLBracket | TRBracket | TComma | TColon
  | TString "nat list"
  | TValue json

definition codes :: "string \<Rightarrow> nat list" where
  "codes s = map of_char s"

definition BACKSLASH :: "(char \<times> nat) list" where
  "BACKSLASH =
     [(CHR 0x22, 0x22), (CHR 0x5C, 0x5C), (CHR ''/'', 0x2F), (CHR ''b'', 8), (CHR ''f'', 12),
      (CHR ''n'', 10), (CHR ''r'', 13), (CHR ''t'', 9)]"

definition hex_val :: "char \<Rightarrow> nat option" where
  "hex_val c =
     (if is_digit c then Some (of_char c - 48)
      else if in_range CHR ''a'' CHR ''f'' c then Some (of_char c - 87)
      else if in_range CHR ''A'' CHR ''F'' c then Some (of_char c - 55)
      else None)"

text \<open>The value of exactly four hexadecimal digits.\<close>

definition hex4 :: "string \<Rightarrow> nat option" where
  "hex4 s =
     (case map hex_val s of
        [Some a, Some b, Some c, Some d] \<Rightarrow> Some (((a * 16 + b) * 16 + c) * 16 + d)
      | _ \<Rightarrow> None)"

text \<open>
  After a high surrogate \<open>uni\<close>: the low surrogate of a following \<^verbatim>\<open>\uXXXX\<close>, if
  there is one.
\<close>

definition low_surrogate :: "nat \<Rightarrow> string \<Rightarrow> nat option" where
  "low_surrogate uni s =
     (if 0xD800 \<le> uni \<and> uni \<le> 0xDBFF \<and> take 2 s = [CHR 0x5C, CHR ''u'']
      then (case hex4 (take 4 (drop 2 s)) of
              Some uni2 \<Rightarrow> if 0xDC00 \<le> uni2 \<and> uni2 \<le> 0xDFFF then Some uni2 else None
            | None \<Rightarrow> None)
      else None)"

definition add_code :: "nat \<Rightarrow> (nat list \<times> string) option \<Rightarrow> (nat list \<times> string) option" where
  "add_code u res = map_option (\<lambda>(v, rest). (u # v, rest)) res"

text \<open>The text after an opening quote: the string's value and the text after its closing quote.\<close>

fun scanstring :: "string \<Rightarrow> (nat list \<times> string) option" where
  "scanstring [] = None"
| "scanstring (c # cs) =
     (if c = CHR 0x22 then Some ([], cs)
      else if c = CHR 0x5C then
        (case cs of
           [] \<Rightarrow> None
         | e # es \<Rightarrow>
             if e = CHR ''u'' then
               (case hex4 (take 4 es) of
                  None \<Rightarrow> None
                | Some uni \<Rightarrow>
                    (case low_surrogate uni (drop 4 es) of
                       Some uni2 \<Rightarrow>
                         add_code (0x10000 + (uni - 0xD800) * 1024 + (uni2 - 0xDC00))
                           (scanstring (drop 10 es))
                     | None \<Rightarrow> add_code uni (scanstring (drop 4 es))))
             else (case map_of BACKSLASH e of
                     None \<Rightarrow> None
                   | Some ch \<Rightarrow> add_code ch (scanstring es)))
      else if (of_char c :: nat) < 32 then None
      else add_code (of_char c) (scanstring cs))"

text \<open>\<^verbatim>\<open>(-?(?:0|[1-9][0-9]*))(\.[0-9]+)?([eE][-+]?[0-9]+)?\<close>\<close>

definition digits_rx :: "nat \<Rightarrow> rx" where
  "digits_rx lo = Rep (Cls [CRange CHR ''0'' CHR ''9'']) lo None"

definition number_rx :: rx where
  "number_rx = cats
     [Opt (At (Lit CHR ''-'')),
      Alt (At (Lit CHR ''0'')) (Cat (At (Cls [CRange CHR ''1'' CHR ''9''])) (digits_rx 0)),
      Opt (Cat (At (Lit CHR ''.'')) (digits_rx 1)),
      Opt (cats [At (Cls [CChar CHR ''e'', CChar CHR ''E'']),
                 Opt (At (Cls [CChar CHR ''-'', CChar CHR ''+''])),
                 digits_rx 1])]"

definition int_of_digits :: "string \<Rightarrow> int" where
  "int_of_digits s = foldl (\<lambda>acc c. acc * 10 + (int (of_char c) - 48)) 0 s"

definition number_value :: "string \<Rightarrow> json" where
  "number_value lexeme =
     (if list_ex (\<lambda>c. c = CHR ''.'' \<or> c = CHR ''e'' \<or> c = CHR ''E'') lexeme then JFloat lexeme
      else case lexeme of
             [] \<Rightarrow> JInt 0
           | c # cs \<Rightarrow> if c = CHR ''-'' then JInt (- int_of_digits cs) else JInt (int_of_digits (c # cs)))"

text \<open>A value that is not a string, an array or an object: the value and its length.\<close>

definition scan_scalar :: "string \<Rightarrow> (json \<times> nat) option" where
  "scan_scalar s =
     (if prefix ''null'' s then Some (JNull, 4)
      else if prefix ''true'' s then Some (JBool True, 4)
      else if prefix ''false'' s then Some (JBool False, 5)
      else case rmatch no_flags number_rx None s of
             n # _ \<Rightarrow> Some (number_value (take n s), n)
           | [] \<Rightarrow>
               if prefix ''NaN'' s then Some (JFloat ''NaN'', 3)
               else if prefix ''Infinity'' s then Some (JFloat ''Infinity'', 8)
               else if prefix ''-Infinity'' s then Some (JFloat ''-Infinity'', 9)
               else None)"

definition json_space :: "char \<Rightarrow> bool" where
  "json_space c = (c = CHR '' '' \<or> c = CHR 0x09 \<or> c = CHR 0x0A \<or> c = CHR 0x0D)"

definition punct :: "(char \<times> token) list" where
  "punct =
     [(CHR ''{'', TLBrace), (CHR ''}'', TRBrace), (CHR ''['', TLBracket), (CHR '']'', TRBracket),
      (CHR '','', TComma), (CHR '':'', TColon)]"

definition add_token :: "token \<Rightarrow> token list option \<Rightarrow> token list option" where
  "add_token t res = map_option (\<lambda>ts. t # ts) res"

lemma scanstring_shorter: "scanstring s = Some (v, rest) \<Longrightarrow> length rest < length s"
proof (induction "length s" arbitrary: s v rest rule: less_induct)
  case less
  note IH = less.hyps [rotated]
  show ?case
  proof (cases s)
    case Nil
    with less.prems show ?thesis by simp
  next
    case (Cons c cs)
    with less.prems show ?thesis
      by (fastforce simp: add_code_def split: if_splits list.splits option.splits dest: IH)
  qed
qed

function lex :: "string \<Rightarrow> token list option" where
  "lex [] = Some []"
| "lex (c # cs) =
     (if json_space c then lex cs
      else case map_of punct c of
             Some t \<Rightarrow> add_token t (lex cs)
           | None \<Rightarrow>
               if c = CHR 0x22 then
                 (case scanstring cs of
                    None \<Rightarrow> None
                  | Some (v, rest) \<Rightarrow> add_token (TString v) (lex rest))
               else
                 (case scan_scalar (c # cs) of
                    None \<Rightarrow> None
                  | Some (v, n) \<Rightarrow> if n = 0 then None else add_token (TValue v) (lex (drop (n - 1) cs))))"
  by pat_completeness auto
termination
  by (relation "measure length") (auto dest: scanstring_shorter)

text \<open>\<^verbatim>\<open>d[k] = v\<close> on a dictionary kept as its list of pairs.\<close>

fun dict_set :: "nat list \<Rightarrow> json \<Rightarrow> (nat list \<times> json) list \<Rightarrow> (nat list \<times> json) list" where
  "dict_set k v [] = [(k, v)]"
| "dict_set k v ((k', v') # ps) = (if k' = k then (k, v) # ps else (k', v') # dict_set k v ps)"

text \<open>
  The parser keeps the open arrays and objects on a stack: an array with its elements
  so far, an object with its pairs so far and the key whose value is being read.
  \<open>p_value\<close> expects a value, \<open>p_after\<close> has just completed one.
\<close>

datatype frame = FArray "json list" | FObject "(nat list \<times> json) list" "nat list"

fun p_value :: "frame list \<Rightarrow> token list \<Rightarrow> json option"
  and p_after :: "json \<Rightarrow> frame list \<Rightarrow> token list \<Rightarrow> json option" where
  "p_value st ts =
     (case ts of
        TValue v # ts' \<Rightarrow> p_after v st ts'
      | TString v # ts' \<Rightarrow> p_after (JStr v) st ts'
      | TLBracket # ts' \<Rightarrow>
          (case ts' of
             TRBracket # ts'' \<Rightarrow> p_after (JArr []) st ts''
           | _ \<Rightarrow> p_value (FArray [] # st) ts')
      | TLBrace # ts' \<Rightarrow>
          (case ts' of
             TRBrace # ts'' \<Rightarrow> p_after (JObj []) st ts''
           | TString k # TColon # ts'' \<Rightarrow> p_value (FObject [] k # st) ts''
           | _ \<Rightarrow> None)
      | _ \<Rightarrow> None)"
| "p_after v st ts =
     (case st of
        [] \<Rightarrow> if ts = [] then Some v else None
      | FArray xs # st' \<Rightarrow>
          (case ts of
             TComma # ts' \<Rightarrow> p_value (FArray (xs @ [v]) # st') ts'
           | TRBracket # ts' \<Rightarrow> p_after (JArr (xs @ [v])) st' ts'
           | _ \<Rightarrow> None)
      | FObject ps k # st' \<Rightarrow>
          (case ts of
             TComma # TString k' # TColon # ts' \<Rightarrow> p_value (FObject (dict_set k v ps) k' # st') ts'
           | TRBrace # ts' \<Rightarrow> p_after (JObj (dict_set k v ps)) st' ts'
           | _ \<Rightarrow> None))"

definition json_loads :: "string \<Rightarrow> json_error + json" where
  "json_loads s =
     (case lex s of
        None \<Rightarrow> Inl JSONDecodeError
      | Some ts \<Rightarrow> (case p_value [] ts of None \<Rightarrow> Inl JSONDecodeError | Some v \<Rightarrow> Inr v))"

subsection \<open>\<^verbatim>\<open>extract_json_from_response\<close>\<close>

definition ml_flags :: flags where
  "ml_flags = \<lparr>ignorecase = False, multiline = True, dotall = False\<rparr>"

definition dotall_flags :: flags where
  "dotall_flags = \<lparr>ignorecase = False, multiline = False, dotall = True\<rparr>"

definition backticks :: "rx list" where
  "backticks = [At (Lit CHR 0x60), At (Lit CHR 0x60), At (Lit CHR 0x60)]"

text \<open>\<^verbatim>\<open>^```(?:json)?\s*\n\<close>\<close>

definition fence_open_rx :: rx where
  "fence_open_rx = cats ([Bol] @ backticks @
     [Opt (cats (map (\<lambda>c. At (Lit c)) ''json'')), Rep (Cls [CSpace]) 0 None, At (Lit newline)])"

text \<open>\<^verbatim>\<open>\n```\s*$\<close>\<close>

definition fence_close_rx :: rx where
  "fence_close_rx = cats ([At (Lit newline)] @ backticks @ [Rep (Cls [CSpace]) 0 None, Eol])"

text \<open>\<^verbatim>\<open>\{.*\}\<close>\<close>

definition braces_rx :: rx where
  "braces_rx = cats [At (Lit CHR ''{''), Rep Dot 0 None, At (Lit CHR ''}'')]"

text \<open>The text handed to the first \<^verbatim>\<open>json.loads\<close>.\<close>

definition cleaned :: "string \<Rightarrow> string" where
  "cleaned response_text =
     (let text = strip response_text;
          text = re_sub_empty ml_flags fence_open_rx text;
          text = re_sub_empty ml_flags fence_close_rx text
      in strip text)"

definition isolate :: "string \<Rightarrow> string" where
  "isolate text =
     (case re_search dotall_flags braces_rx text of
        Some (start, n) \<Rightarrow> take n (drop start text)
      | None \<Rightarrow> text)"

definition extract_json_from_response :: "string \<Rightarrow> json_error + json" where
  "extract_json_from_response response_text =
     (let text = isolate (cleaned response_text)
      in case json_loads text of
           Inr result \<Rightarrow> Inr result
         | Inl e \<Rightarrow>
             (case (find_char CHR ''{'' text, rfind_char CHR ''}'' text) of
                (Some start, Some end) \<Rightarrow> json_loads (take (end + 1 - start) (drop start text))
              | _ \<Rightarrow> Inl e))"

text \<open>
  A property of a text, used to reason about the two fence patterns: no backtick stands
  at the start of a line. \<open>p\<close> is the character before the text.
\<close>

fun line_start_free :: "char option \<Rightarrow> string \<Rightarrow> bool" where
  "line_start_free p [] = True"
| "line_start_free p (x # xs) =
     (\<not> (x = CHR 0x60 \<and> (p = None \<or> p = Some newline)) \<and> line_start_free (Some x) xs)"

chapter \<open>Properties\<close>

section \<open>Router\<close>

lemma check_loop_snoc2:
  "check_loop a (pre @ [y, x]) \<longleftrightarrow> x = a \<or> y = a \<or> 2 \<le> count_list (pre @ [y, x]) a"
  by (simp add: check_loop_def nth_append)

text \<open>
  C9. The loop check rejects a candidate exactly when the history ends with it, or has it
  as its last but one entry, or holds it at least twice. Routing to email is rejected after
  [email, calendar, email] and after [email, calendar], and accepted after [calendar].
\<close>

theorem check_loop_exactly:
  "(check_loop a h \<longleftrightarrow>
      (\<exists>pre. h = pre @ [a]) \<or> (\<exists>pre b. h = pre @ [a, b]) \<or> 2 \<le> count_list h a) \<and>
   check_loop ''email'' [''email'', ''calendar'', ''email''] \<and>
   check_loop ''email'' [''email'', ''calendar''] \<and>
   \<not> check_loop ''email'' [''calendar'']"
proof -
  have general: "check_loop a h \<longleftrightarrow>
      (\<exists>pre. h = pre @ [a]) \<or> (\<exists>pre b. h = pre @ [a, b]) \<or> 2 \<le> count_list h a"
  proof (cases h rule: rev_cases)
    case Nil
    then show ?thesis by (simp add: check_loop_def)
  next
    case (snoc pre x)
    note h = snoc
    show ?thesis
    proof (cases pre rule: rev_cases)
      case Nil
      with h show ?thesis by (auto simp: check_loop_def)
    next
      case (snoc pre' y)
      with h have eq: "h = pre' @ [y, x]" by simp
      show ?thesis unfolding eq check_loop_snoc2 by auto
    qed
  qed
  show ?thesis using general by (simp add: check_loop_def)
qed

section \<open>Free slots of a day\<close>

lemma hhmm_of_day:
  assumes "0 \<le> m" "m < 1440"
  shows "hhmm (d * (24 * hour_us) + m * minute_us) =
         pad2 (nat (m div 60)) @ '':'' @ pad2 (nat (m mod 60))"
proof -
  let ?t = "d * (24 * hour_us) + m * minute_us"
  have t: "?t = (d * 1440 + m) * minute_us" by (simp add: hour_us_def algebra_simps)
  have mpos: "minute_us \<noteq> 0" by (simp add: minute_us_def)
  have a: "?t div minute_us = d * 1440 + m" unfolding t using mpos by simp
  have hm: "hour_us = minute_us * 60" by (simp add: hour_us_def)
  have "?t div hour_us = (?t div minute_us) div 60"
    unfolding hm by (rule zdiv_zmult2_eq) simp
  also have "\<dots> = (m + (d * 24) * 60) div 60" unfolding a by (simp add: algebra_simps)
  also have "\<dots> = d * 24 + m div 60" by simp
  finally have b: "?t div hour_us = d * 24 + m div 60" .
  have "m div 60 < 24" using assms by simp
  moreover have "0 \<le> m div 60" using assms by simp
  ultimately have c: "(d * 24 + m div 60) mod 24 = m div 60" by simp
  have "(d * 1440 + m) mod 60 = (m + (d * 24) * 60) mod 60" by (simp add: algebra_simps)
  also have "\<dots> = m mod 60" by (rule mod_mult_self1)
  finally have e: "(d * 1440 + m) mod 60 = m mod 60" .
  show ?thesis unfolding hhmm_def a b c e ..
qed

lemma day_hours:
  "d * (24 * hour_us) + 9 * hour_us = d * (24 * hour_us) + 540 * minute_us"
  "d * (24 * hour_us) + 10 * hour_us = d * (24 * hour_us) + 600 * minute_us"
  "d * (24 * hour_us) + 11 * hour_us = d * (24 * hour_us) + 660 * minute_us"
  "d * (24 * hour_us) + 17 * hour_us = d * (24 * hour_us) + 1020 * minute_us"
  by (simp_all add: hour_us_def)

lemma day_clock:
  "hhmm (d * (24 * hour_us) + 540 * minute_us) = ''09:00''"
  "hhmm (d * (24 * hour_us) + 600 * minute_us) = ''10:00''"
  "hhmm (d * (24 * hour_us) + 660 * minute_us) = ''11:00''"
  "hhmm (d * (24 * hour_us) + 1020 * minute_us) = ''17:00''"
  by (simp_all add: hhmm_of_day pad2_def)

lemma minute_us_pos: "0 < minute_us"
  by (simp add: minute_us_def)

lemma slots_90:
  "find_free_slots (d * (24 * hour_us))
     [(Naive (d * (24 * hour_us) + 10 * hour_us), Naive (d * (24 * hour_us) + 11 * hour_us))] 90 =
   Inr [(''11:00'', ''17:00'')]"
  unfolding find_free_slots_def day_hours
  using minute_us_pos by (simp add: day_clock Let_def)

lemma slots_30:
  "find_free_slots (d * (24 * hour_us))
     [(Naive (d * (24 * hour_us) + 10 * hour_us), Naive (d * (24 * hour_us) + 11 * hour_us))] 30 =
   Inr [(''09:00'', ''10:00''), (''11:00'', ''17:00'')]"
  unfolding find_free_slots_def day_hours
  using minute_us_pos by (simp add: day_clock Let_def)

text \<open>
  C3, as the claim states it, fails: on a day with the one event from 10:00 to 11:00 (naive
  times), a request for 90 minutes does not return two windows and a request for 30
  minutes does not return three.
\<close>

theorem free_slots_counts_counterexample:
  "\<not> (\<exists>slots. calendar_find_free_slots True ''2024-01-31'' (Some (0 * (24 * hour_us)))
          [(Naive (0 * (24 * hour_us) + 10 * hour_us), Naive (0 * (24 * hour_us) + 11 * hour_us))] 90 =
        Inr (FoundSlots ''2024-01-31'' slots) \<and> length slots = 2) \<and>
   \<not> (\<exists>slots. calendar_find_free_slots True ''2024-01-31'' (Some (0 * (24 * hour_us)))
          [(Naive (0 * (24 * hour_us) + 10 * hour_us), Naive (0 * (24 * hour_us) + 11 * hour_us))] 30 =
        Inr (FoundSlots ''2024-01-31'' slots) \<and> length slots = 3)"
  using slots_90 [of 0] slots_30 [of 0] by (simp add: calendar_find_free_slots_def)

text \<open>
  C3, amended. On any day \<open>d\<close> with the one event from 10:00 to 11:00 (naive times), a
  request for 90 minutes returns exactly one window, 11:00 to 17:00 (09:00 to 10:00 is too
  short), and a request for 30 minutes returns exactly two windows, 09:00 to 10:00 and
  11:00 to 17:00.
\<close>

theorem free_slots_one_event:
  "calendar_find_free_slots True date (Some (d * (24 * hour_us)))
     [(Naive (d * (24 * hour_us) + 10 * hour_us), Naive (d * (24 * hour_us) + 11 * hour_us))] 90 =
   Inr (FoundSlots date [(''11:00'', ''17:00'')]) \<and>
   calendar_find_free_slots True date (Some (d * (24 * hour_us)))
     [(Naive (d * (24 * hour_us) + 10 * hour_us), Naive (d * (24 * hour_us) + 11 * hour_us))] 30 =
   Inr (FoundSlots date [(''09:00'', ''10:00''), (''11:00'', ''17:00'')])"
  using slots_90 [of d] slots_30 [of d] by (simp add: calendar_find_free_slots_def)

section \<open>Task agent\<close>

lemma two_orders:
  assumes "distinct xs" "set xs = {a, b}" "a \<noteq> b"
  shows "xs = [a, b] \<or> xs = [b, a]"
proof -
  have "length xs = card {a, b}" using assms distinct_card by metis
  then have "length xs = 2" using assms by simp
  then obtain x y where xs: "xs = [x, y]"
    by (metis (no_types, opaque_lifting) Suc_length_conv length_0_conv numeral_2_eq_2)
  with assms show ?thesis by auto
qed

text \<open>
  C7, as the claim states it, fails. The only status that \<^verbatim>\<open>identify_blockers\<close> takes for
  finished is \<^verbatim>\<open>"completed"\<close>. For the tasks A (no dependencies, status "done"), B (depends
  on A, todo) and C (depends on B, todo), in either order in which the set of dependencies
  can be visited, B is reported as blocked by A, and A is listed as a blocking task beside B.
\<close>

theorem identify_blockers_done_counterexample:
  "iteration_of [''A'', ''B'']
     (all_deps [\<lparr>task_id = ''A'', title = ''a'', status = ''done'', dependencies = []\<rparr>,
                \<lparr>task_id = ''B'', title = ''b'', status = ''todo'', dependencies = [''A'']\<rparr>,
                \<lparr>task_id = ''C'', title = ''c'', status = ''todo'', dependencies = [''B'']\<rparr>]) \<and>
   identify_blockers [''A'', ''B'']
     [\<lparr>task_id = ''A'', title = ''a'', status = ''done'', dependencies = []\<rparr>,
      \<lparr>task_id = ''B'', title = ''b'', status = ''todo'', dependencies = [''A'']\<rparr>,
      \<lparr>task_id = ''C'', title = ''c'', status = ''todo'', dependencies = [''B'']\<rparr>] =
   ([Blocking ''A'' ''a'' 1, Blocking ''B'' ''b'' 1],
    [Blocked ''B'' ''b'' [''A''], Blocked ''C'' ''c'' [''B'']], []) \<and>
   iteration_of [''B'', ''A'']
     (all_deps [\<lparr>task_id = ''A'', title = ''a'', status = ''done'', dependencies = []\<rparr>,
                \<lparr>task_id = ''B'', title = ''b'', status = ''todo'', dependencies = [''A'']\<rparr>,
                \<lparr>task_id = ''C'', title = ''c'', status = ''todo'', dependencies = [''B'']\<rparr>]) \<and>
   identify_blockers [''B'', ''A'']
     [\<lparr>task_id = ''A'', title = ''a'', status = ''done'', dependencies = []\<rparr>,
      \<lparr>task_id = ''B'', title = ''b'', status = ''todo'', dependencies = [''A'']\<rparr>,
      \<lparr>task_id = ''C'', title = ''c'', status = ''todo'', dependencies = [''B'']\<rparr>] =
   ([Blocking ''B'' ''b'' 1, Blocking ''A'' ''a'' 1],
    [Blocked ''B'' ''b'' [''A''], Blocked ''C'' ''c'' [''B'']], [])"
  by (auto simp: iteration_of_def all_deps_def identify_blockers_def blocking_entry_def
      blocked_tasks_def incomplete_deps_def)

text \<open>
  C7, amended. For the tasks A (no dependencies, status "completed"), B (depends on A,
  todo) and C (depends on B, todo), in whatever order the set of dependencies is visited:
  B is not among the blocked tasks, C is blocked by B, and B is the one blocking task, with
  count 1.
\<close>

theorem identify_blockers_chain:
  assumes "tasks =
     [\<lparr>task_id = ''A'', title = ta, status = ''completed'', dependencies = []\<rparr>,
      \<lparr>task_id = ''B'', title = tb, status = ''todo'', dependencies = [''A'']\<rparr>,
      \<lparr>task_id = ''C'', title = tc, status = ''todo'', dependencies = [''B'']\<rparr>]"
    and "iteration_of order (all_deps tasks)"
  shows "identify_blockers order tasks = ([Blocking ''B'' tb 1], [Blocked ''C'' tc [''B'']], [])"
proof -
  have deps: "all_deps tasks = {''A'', ''B''}"
    using assms(1) by (auto simp: all_deps_def)
  from assms(2) have "order = [''A'', ''B''] \<or> order = [''B'', ''A'']"
    unfolding iteration_of_def deps by (intro two_orders) auto
  then show ?thesis
    using assms(1)
    by (auto simp: identify_blockers_def blocking_entry_def blocked_tasks_def incomplete_deps_def)
qed

theorem identify_blockers_chain_witness:
  "iteration_of [''B'', ''A'']
     (all_deps [\<lparr>task_id = ''A'', title = ''a'', status = ''completed'', dependencies = []\<rparr>,
                \<lparr>task_id = ''B'', title = ''b'', status = ''todo'', dependencies = [''A'']\<rparr>,
                \<lparr>task_id = ''C'', title = ''c'', status = ''todo'', dependencies = [''B'']\<rparr>]) \<and>
   identify_blockers [''B'', ''A'']
     [\<lparr>task_id = ''A'', title = ''a'', status = ''completed'', dependencies = []\<rparr>,
      \<lparr>task_id = ''B'', title = ''b'', status = ''todo'', dependencies = [''A'']\<rparr>,
      \<lparr>task_id = ''C'', title = ''c'', status = ''todo'', dependencies = [''B'']\<rparr>] =
   ([Blocking ''B'' ''b'' 1], [Blocked ''C'' ''c'' [''B'']], [])"
proof -
  let ?tasks = "[\<lparr>task_id = ''A'', title = ''a'', status = ''completed'', dependencies = []\<rparr>,
                \<lparr>task_id = ''B'', title = ''b'', status = ''todo'', dependencies = [''A'']\<rparr>,
                \<lparr>task_id = ''C'', title = ''c'', status = ''todo'', dependencies = [''B'']\<rparr>]"
  have h: "iteration_of [''B'', ''A''] (all_deps ?tasks)"
    by (auto simp: iteration_of_def all_deps_def)
  show ?thesis using h identify_blockers_chain [OF refl h] by simp
qed

text \<open>
  C8. The final order of \<^verbatim>\<open>prioritize_tasks\<close> is a rearrangement of the results in which
  an earlier entry has a smaller bucket than a later one, or the same bucket and an urgency
  score at least as high, a missing score counting as 5. The buckets are urgent 0, high 1,
  low 3, and 2 for medium, for a missing priority and for any other text. The results tagged
  (medium, 5), (urgent, 3), (high, 9) come out as urgent, high, medium; within the bucket
  of low, the scores 7, 8 and a missing one come out as 8, 7, missing, after an entry
  without priority.
\<close>

theorem sort_prioritized_order:
  "mset (sort_prioritized xs) = mset xs \<and>
   (\<forall>i j. i < j \<and> j < length (sort_prioritized xs) \<longrightarrow>
      bucket (sort_prioritized xs ! i) < bucket (sort_prioritized xs ! j) \<or>
      (bucket (sort_prioritized xs ! i) = bucket (sort_prioritized xs ! j) \<and>
       (case urgency_score (sort_prioritized xs ! j) of None \<Rightarrow> 5 | Some u \<Rightarrow> u)
         \<le> (case urgency_score (sort_prioritized xs ! i) of None \<Rightarrow> 5 | Some u \<Rightarrow> u))) \<and>
   bucket x =
     (if priority x = Some ''urgent'' then 0 else if priority x = Some ''high'' then 1
      else if priority x = Some ''low'' then 3 else 2) \<and>
   sort_prioritized
     [\<lparr>p_task_id = t1, priority = Some ''medium'', urgency_score = Some 5\<rparr>,
      \<lparr>p_task_id = t2, priority = Some ''urgent'', urgency_score = Some 3\<rparr>,
      \<lparr>p_task_id = t3, priority = Some ''high'', urgency_score = Some 9\<rparr>] =
     [\<lparr>p_task_id = t2, priority = Some ''urgent'', urgency_score = Some 3\<rparr>,
      \<lparr>p_task_id = t3, priority = Some ''high'', urgency_score = Some 9\<rparr>,
      \<lparr>p_task_id = t1, priority = Some ''medium'', urgency_score = Some 5\<rparr>] \<and>
   sort_prioritized
     [\<lparr>p_task_id = t1, priority = Some ''low'', urgency_score = Some 7\<rparr>,
      \<lparr>p_task_id = t2, priority = Some ''low'', urgency_score = Some 8\<rparr>,
      \<lparr>p_task_id = t3, priority = Some ''low'', urgency_score = None\<rparr>,
      \<lparr>p_task_id = t4, priority = None, urgency_score = Some 1\<rparr>] =
     [\<lparr>p_task_id = t4, priority = None, urgency_score = Some 1\<rparr>,
      \<lparr>p_task_id = t2, priority = Some ''low'', urgency_score = Some 8\<rparr>,
      \<lparr>p_task_id = t1, priority = Some ''low'', urgency_score = Some 7\<rparr>,
      \<lparr>p_task_id = t3, priority = Some ''low'', urgency_score = None\<rparr>]"
proof -
  let ?ys = "sort_prioritized xs"
  have perm: "mset ?ys = mset xs" by (simp add: sort_prioritized_def)
  have srt: "sorted (map prio_key ?ys)" by (simp add: sort_prioritized_def)
  have ord: "bucket (?ys ! i) < bucket (?ys ! j) \<or>
      (bucket (?ys ! i) = bucket (?ys ! j) \<and>
       (case urgency_score (?ys ! j) of None \<Rightarrow> 5 | Some u \<Rightarrow> u)
         \<le> (case urgency_score (?ys ! i) of None \<Rightarrow> 5 | Some u \<Rightarrow> u))"
    if "i < j" "j < length ?ys" for i j
  proof -
    from that have "map prio_key ?ys ! i \<le> map prio_key ?ys ! j"
      using srt by (simp add: sorted_iff_nth_mono)
    with that show ?thesis by (auto simp: prio_key_def urgency_def)
  qed
  have ranks: "bucket x =
     (if priority x = Some ''urgent'' then 0 else if priority x = Some ''high'' then 1
      else if priority x = Some ''low'' then 3 else 2)"
    by (cases "priority x") (simp_all add: bucket_def priority_order_def)
  have ex: "sort_prioritized
     [\<lparr>p_task_id = t1, priority = Some ''medium'', urgency_score = Some 5\<rparr>,
      \<lparr>p_task_id = t2, priority = Some ''urgent'', urgency_score = Some 3\<rparr>,
      \<lparr>p_task_id = t3, priority = Some ''high'', urgency_score = Some 9\<rparr>] =
     [\<lparr>p_task_id = t2, priority = Some ''urgent'', urgency_score = Some 3\<rparr>,
      \<lparr>p_task_id = t3, priority = Some ''high'', urgency_score = Some 9\<rparr>,
      \<lparr>p_task_id = t1, priority = Some ''medium'', urgency_score = Some 5\<rparr>]"
    by (simp add: sort_prioritized_def prio_key_def bucket_def priority_order_def urgency_def)
  have ex2: "sort_prioritized
     [\<lparr>p_task_id = t1, priority = Some ''low'', urgency_score = Some 7\<rparr>,
      \<lparr>p_task_id = t2, priority = Some ''low'', urgency_score = Some 8\<rparr>,
      \<lparr>p_task_id = t3, priority = Some ''low'', urgency_score = None\<rparr>,
      \<lparr>p_task_id = t4, priority = None, urgency_score = Some 1\<rparr>] =
     [\<lparr>p_task_id = t4, priority = None, urgency_score = Some 1\<rparr>,
      \<lparr>p_task_id = t2, priority = Some ''low'', urgency_score = Some 8\<rparr>,
      \<lparr>p_task_id = t1, priority = Some ''low'', urgency_score = Some 7\<rparr>,
      \<lparr>p_task_id = t3, priority = Some ''low'', urgency_score = None\<rparr>]"
    by (simp add: sort_prioritized_def prio_key_def bucket_def priority_order_def urgency_def)
  show ?thesis using perm ord ranks ex ex2 by blast
qed

theorem sort_prioritized_order_witness:
  "(0::nat) < 1 \<and>
   1 < length (sort_prioritized
         [\<lparr>p_task_id = ''x'', priority = Some ''low'', urgency_score = Some 7\<rparr>,
          \<lparr>p_task_id = ''y'', priority = Some ''low'', urgency_score = Some 8\<rparr>]) \<and>
   urgency_score (sort_prioritized
         [\<lparr>p_task_id = ''x'', priority = Some ''low'', urgency_score = Some 7\<rparr>,
          \<lparr>p_task_id = ''y'', priority = Some ''low'', urgency_score = Some 8\<rparr>] ! 0) = Some 8 \<and>
   urgency_score (sort_prioritized
         [\<lparr>p_task_id = ''x'', priority = Some ''low'', urgency_score = Some 7\<rparr>,
          \<lparr>p_task_id = ''y'', priority = Some ''low'', urgency_score = Some 8\<rparr>] ! 1) = Some 7"
  using sort_prioritized_order
    [of "[\<lparr>p_task_id = ''x'', priority = Some ''low'', urgency_score = Some 7\<rparr>,
          \<lparr>p_task_id = ''y'', priority = Some ''low'', urgency_score = Some 8\<rparr>]"]
  by (simp add: sort_prioritized_def prio_key_def bucket_def priority_order_def urgency_def)


section \<open>Guardrails\<close>

subsection \<open>What a pattern consumes\<close>

lemma rmatch_consumes:
  "n \<in> set (rmatch fl r p s) \<Longrightarrow> n \<le> length s \<and> (\<forall>c \<in> set (take n s). rx_chars fl r c)"
proof (induction r arbitrary: n p s)
  case (At a)
  then show ?case by (cases s) (auto split: if_splits)
next
  case (Cat a b)
  from Cat.prems obtain n1 m where n1: "n1 \<in> set (rmatch fl a p s)"
    and m: "m \<in> set (rmatch fl b (prev_at p s n1) (drop n1 s))" and n: "n = n1 + m"
    by auto
  from Cat.IH(1) [OF n1] have a: "n1 \<le> length s" "\<forall>c \<in> set (take n1 s). rx_chars fl a c" by auto
  from Cat.IH(2) [OF m] have b: "m \<le> length (drop n1 s)" "\<forall>c \<in> set (take m (drop n1 s)). rx_chars fl b c" by auto
  have "take n s = take n1 s @ take m (drop n1 s)" unfolding n by (simp add: take_add)
  with a b n show ?case by auto
next
  case (Rep a lo hi)
  let ?k = "length (takeWhile (atom_match fl a) s)"
  from Rep.prems have nk: "n \<le> ?k" by (auto simp: Let_def split: option.splits)
  have kl: "?k \<le> length s" by (rule length_takeWhile_le)
  have "take n s = take n (takeWhile (atom_match fl a) s)"
    using nk by (metis takeWhile_eq_take take_take min.absorb1)
  then have "set (take n s) \<subseteq> set (takeWhile (atom_match fl a) s)"
    by (metis set_take_subset)
  then have "\<forall>c \<in> set (take n s). atom_match fl a c"
    using set_takeWhileD by fastforce
  with nk kl show ?case by auto
qed (auto split: if_splits)

lemma rmatch_Cat_iff:
  "n \<in> set (rmatch fl (Cat a b) p s) \<longleftrightarrow>
   (\<exists>n1 m. n1 \<in> set (rmatch fl a p s) \<and> m \<in> set (rmatch fl b (prev_at p s n1) (drop n1 s)) \<and>
            n = n1 + m)"
  by auto

lemma rmatch_ends_eol:
  "ends_eol r \<Longrightarrow> \<not> multiline fl \<Longrightarrow> n \<in> set (rmatch fl r p s) \<Longrightarrow>
   drop n s = [] \<or> drop n s = [newline]"
proof (induction r arbitrary: n p s)
  case (Cat a b)
  from Cat.prems(3) obtain n1 m where n1: "n1 \<in> set (rmatch fl a p s)"
    and m: "m \<in> set (rmatch fl b (prev_at p s n1) (drop n1 s))" and n: "n = n1 + m"
    unfolding rmatch_Cat_iff by blast
  show ?case
  proof (cases "b = Eps")
    case True
    with m n have "n = n1" by simp
    moreover from True Cat.prems(1) have "ends_eol a" by simp
    ultimately show ?thesis using Cat.IH(1) [OF _ Cat.prems(2) n1] by simp
  next
    case False
    with Cat.prems(1) have "ends_eol b" by simp
    from Cat.IH(2) [OF this Cat.prems(2) m]
    have "drop m (drop n1 s) = [] \<or> drop m (drop n1 s) = [newline]" .
    then show ?thesis unfolding n by (simp add: add.commute)
  qed
next
  case Eol
  then show ?case by (auto split: if_splits)
qed simp_all

lemma valid_email_chars:
  assumes "is_valid_email to"
  shows "\<forall>c \<in> set to. rx_chars no_flags valid_email_rx c \<or> c = newline"
proof -
  from assms obtain n where n: "n \<in> set (rmatch no_flags valid_email_rx None to)"
    unfolding is_valid_email_def re_match_def by (auto split: list.splits)
  have e: "ends_eol valid_email_rx" by (simp add: valid_email_rx_def cats_def)
  have "\<not> multiline no_flags" by (simp add: no_flags_def)
  from rmatch_ends_eol [OF e this n] have d: "drop n to = [] \<or> drop n to = [newline]" .
  from rmatch_consumes [OF n] have t: "\<forall>c \<in> set (take n to). rx_chars no_flags valid_email_rx c" by simp
  show ?thesis
  proof
    fix c assume "c \<in> set to"
    then have "c \<in> set (take n to @ drop n to)" by simp
    then have "c \<in> set (take n to) \<or> c \<in> set (drop n to)" by (simp only: set_append Un_iff)
    then show "rx_chars no_flags valid_email_rx c \<or> c = newline"
    proof
      assume "c \<in> set (take n to)"
      with t show ?thesis by blast
    next
      assume "c \<in> set (drop n to)"
      with d have "c = newline" by (elim disjE) simp_all
      then show ?thesis ..
    qed
  qed
qed

lemma not_valid_chars:
  "\<not> rx_chars no_flags valid_email_rx CHR '',''" "\<not> rx_chars no_flags valid_email_rx CHR '';''"
  by (simp_all add: valid_email_rx_def cats_def no_flags_def in_range_def)

lemma separator_invalid:
  "CHR '','' \<in> set to \<or> CHR '';'' \<in> set to \<Longrightarrow> \<not> is_valid_email to"
  using valid_email_chars [of to] not_valid_chars by (auto simp: newline_def)

subsection \<open>Rate limit and email check\<close>

lemma str_nat_limits: "str_nat 10 = ''10''" "str_nat 3600 = ''3600''" "str_nat 20 = ''20''"
  by (simp_all add: str_nat.simps)

lemma rate_email_send:
  "check_rate_limit h now ''email_send'' =
     (if 10 \<le> length (recent_actions h now ''email_send'' 3600)
      then [(''allowed'', PBool False),
            (''reason'', PStr ''Rate limit exceeded: 10 per 3600s''),
            (''reset_time'', PTime (timestamp (hd (recent_actions h now ''email_send'' 3600))))]
      else [(''allowed'', PBool True),
            (''remaining'', PInt (10 - int (length (recent_actions h now ''email_send'' 3600))))])"
  by (simp add: check_rate_limit_def RATE_LIMITS_def recent_actions_def str_nat_limits Let_def)

lemma rate_calendar_create:
  "check_rate_limit h now ''calendar_create'' =
     (if 20 \<le> length (recent_actions h now ''calendar_create'' 3600)
      then [(''allowed'', PBool False),
            (''reason'', PStr ''Rate limit exceeded: 20 per 3600s''),
            (''reset_time'', PTime (timestamp (hd (recent_actions h now ''calendar_create'' 3600))))]
      else [(''allowed'', PBool True),
            (''remaining'', PInt (20 - int (length (recent_actions h now ''calendar_create'' 3600))))])"
  by (simp add: check_rate_limit_def RATE_LIMITS_def recent_actions_def str_nat_limits Let_def)

lemma email_blocked:
  assumes "10 \<le> length (recent_actions h now ''email_send'' 3600)"
  shows "check_email_send h now now_log to subject body =
     ([(''approved'', PBool False),
       (''warnings'', PList (map PWarn
          ((if detected (check_sensitive_content body)
            then [SensitiveDetected (patterns (check_sensitive_content body))] else []) @
           [RateWarning ''Rate limit exceeded: 10 per 3600s'']))),
       (''requires_human'', PBool False),
       (''reason'', PStr ''Rate limit exceeded'')], h)"
  using assms by (simp add: check_email_send_def rate_email_send allowed_def reason_text_def Let_def)

lemma email_invalid:
  assumes "length (recent_actions h now ''email_send'' 3600) < 10" "\<not> is_valid_email to"
  shows "check_email_send h now now_log to subject body =
     ([(''approved'', PBool False),
       (''warnings'', PList (map PWarn
          ((if detected (check_sensitive_content body)
            then [SensitiveDetected (patterns (check_sensitive_content body))] else []) @
           [InvalidAddress to]))),
       (''requires_human'', PBool False),
       (''reason'', PStr ''Invalid recipient'')], h)"
  using assms by (simp add: check_email_send_def rate_email_send allowed_def reason_text_def Let_def)

lemma email_approved:
  assumes "length (recent_actions h now ''email_send'' 3600) < 10" "is_valid_email to"
  shows "check_email_send h now now_log to subject body =
     ([(''approved'', PBool True),
       (''warnings'', PList (map PWarn
          (if detected (check_sensitive_content body)
           then [SensitiveDetected (patterns (check_sensitive_content body))] else []))),
       (''requires_human'', PBool (detected (check_sensitive_content body)))],
      h @ [\<lparr>atype = ''email_send'', timestamp = now_log, recipient = Some to\<rparr>])"
proof -
  from assms(2) have "\<not> (CHR '','' \<in> set to \<or> CHR '';'' \<in> set to)"
    using separator_invalid by blast
  then have m: "CHR '','' \<notin> set to" "CHR '';'' \<notin> set to"
    by simp_all
  show ?thesis
    using assms m
    by (simp add: check_email_send_def rate_email_send allowed_def reason_text_def Let_def)
qed


text \<open>
  C10. Every call of \<open>check_email_send\<close> returns approved false or approved true. When
  it returns false (the rate limit is exceeded or the recipient is invalid) the history is
  unchanged; when it returns true exactly one entry is appended; so the history changes only
  on approval.
\<close>

theorem blocked_send_leaves_history:
  "(map_of (fst (check_email_send h now now_log to subject body)) ''approved'' = Some (PBool False) \<or>
    map_of (fst (check_email_send h now now_log to subject body)) ''approved'' = Some (PBool True)) \<and>
   (map_of (fst (check_email_send h now now_log to subject body)) ''approved'' = Some (PBool False) \<longrightarrow>
      snd (check_email_send h now now_log to subject body) = h \<and>
      (\<not> allowed (check_rate_limit h now ''email_send'') \<or> \<not> is_valid_email to)) \<and>
   (map_of (fst (check_email_send h now now_log to subject body)) ''approved'' = Some (PBool True) \<longrightarrow>
      snd (check_email_send h now now_log to subject body) =
        h @ [\<lparr>atype = ''email_send'', timestamp = now_log, recipient = Some to\<rparr>]) \<and>
   (snd (check_email_send h now now_log to subject body) \<noteq> h \<longrightarrow>
      map_of (fst (check_email_send h now now_log to subject body)) ''approved'' = Some (PBool True))"
proof (cases "10 \<le> length (recent_actions h now ''email_send'' 3600)")
  case True
  show ?thesis unfolding email_blocked [OF True]
    using True by (simp add: rate_email_send allowed_def)
next
  case False
  then have lt: "length (recent_actions h now ''email_send'' 3600) < 10" by simp
  show ?thesis
  proof (cases "is_valid_email to")
    case True
    show ?thesis unfolding email_approved [OF lt True] by simp
  next
    case False
    show ?thesis unfolding email_invalid [OF lt False] using False by simp
  qed
qed

lemma sample_addresses:
  "is_valid_email ''a@x.com''" "\<not> is_valid_email ''not-an-address''"
  by code_simp code_simp

lemma recent_empty: "recent_actions [] now ty w = []"
  by (simp add: recent_actions_def)

theorem blocked_send_leaves_history_witness:
  "map_of (fst (check_email_send [] 0 0 ''not-an-address'' ''s'' ''b'')) ''approved'' = Some (PBool False) \<and>
   snd (check_email_send [] 0 0 ''not-an-address'' ''s'' ''b'') = [] \<and>
   map_of (fst (check_email_send [] 0 0 ''a@x.com'' ''s'' ''b'')) ''approved'' = Some (PBool True) \<and>
   snd (check_email_send [] 0 0 ''a@x.com'' ''s'' ''b'') =
     [] @ [\<lparr>atype = ''email_send'', timestamp = 0, recipient = Some ''a@x.com''\<rparr>]"
proof -
  have r: "length (recent_actions [] 0 ''email_send'' 3600) < 10" by (simp add: recent_empty)
  have a: "map_of (fst (check_email_send [] 0 0 ''not-an-address'' ''s'' ''b'')) ''approved'' = Some (PBool False)"
    by (simp only: email_invalid [OF r sample_addresses(2)] fst_conv snd_conv map_of.simps fun_upd_apply refl if_True)
  have b: "map_of (fst (check_email_send [] 0 0 ''a@x.com'' ''s'' ''b'')) ''approved'' = Some (PBool True)"
    by (simp only: email_approved [OF r sample_addresses(1)] fst_conv snd_conv map_of.simps fun_upd_apply refl if_True)
  note T1 = blocked_send_leaves_history [of "[]" 0 0 "''not-an-address''" "''s''" "''b''"]
  note T2 = blocked_send_leaves_history [of "[]" 0 0 "''a@x.com''" "''s''" "''b''"]
  from T1 a have c: "snd (check_email_send [] 0 0 ''not-an-address'' ''s'' ''b'') = []" by blast
  from T2 b have d: "snd (check_email_send [] 0 0 ''a@x.com'' ''s'' ''b'') =
     [] @ [\<lparr>atype = ''email_send'', timestamp = 0, recipient = Some ''a@x.com''\<rparr>]" by blast
  from a c b d show ?thesis by (intro conjI)
qed

text \<open>
  C4. The check validates the whole recipient text against the pattern of one address
  before it looks for separators, so a text with a comma or a semicolon is always rejected
  as an invalid recipient (or by the rate limit): the branch that flags a mass email is
  never reached, and \<^verbatim>\<open>requires_human\<close> is false.
\<close>

theorem mass_email_never_flagged:
  assumes "CHR '','' \<in> set to \<or> CHR '';'' \<in> set to"
  shows "map_of (fst (check_email_send h now now_log to subject body)) ''approved'' = Some (PBool False) \<and>
         map_of (fst (check_email_send h now now_log to subject body)) ''requires_human'' = Some (PBool False) \<and>
         snd (check_email_send h now now_log to subject body) = h"
proof (cases "10 \<le> length (recent_actions h now ''email_send'' 3600)")
  case True
  show ?thesis unfolding email_blocked [OF True] by simp
next
  case False
  then have lt: "length (recent_actions h now ''email_send'' 3600) < 10" by simp
  from assms have inv: "\<not> is_valid_email to" by (rule separator_invalid)
  show ?thesis unfolding email_invalid [OF lt inv] by simp
qed

lemma six_recipients:
  "length (map strip (split_recipients ''a@x.com,b@x.com,c@x.com,d@x.com,e@x.com,f@x.com'')) = 6"
  by simp

theorem mass_email_never_flagged_witness:
  "(CHR '','' \<in> set ''a@x.com,b@x.com,c@x.com,d@x.com,e@x.com,f@x.com'' \<or>
    CHR '';'' \<in> set ''a@x.com,b@x.com,c@x.com,d@x.com,e@x.com,f@x.com'') \<and>
   5 < length (map strip (split_recipients ''a@x.com,b@x.com,c@x.com,d@x.com,e@x.com,f@x.com'')) \<and>
   map_of (fst (check_email_send [] 0 0 ''a@x.com,b@x.com,c@x.com,d@x.com,e@x.com,f@x.com'' ''s'' ''b''))
     ''requires_human'' = Some (PBool False) \<and>
   map_of (fst (check_email_send [] 0 0 ''a@x.com,b@x.com,c@x.com,d@x.com,e@x.com,f@x.com'' ''s'' ''b''))
     ''approved'' = Some (PBool False)"
proof -
  have h: "CHR '','' \<in> set ''a@x.com,b@x.com,c@x.com,d@x.com,e@x.com,f@x.com'' \<or>
    CHR '';'' \<in> set ''a@x.com,b@x.com,c@x.com,d@x.com,e@x.com,f@x.com''" by simp
  have n: "5 < length (map strip (split_recipients ''a@x.com,b@x.com,c@x.com,d@x.com,e@x.com,f@x.com''))"
    unfolding six_recipients by simp
  note T = mass_email_never_flagged [OF h, of "[]" 0 0 "''s''" "''b''"]
  from h n T show ?thesis by blast
qed

subsection \<open>Calendar operations\<close>

lemma calendar_blocked:
  assumes "20 \<le> length (recent_actions h now ''calendar_create'' 3600)"
  shows "check_calendar_operation h now now_log ''create'' args =
     ([(''approved'', PBool False),
       (''warnings'', PList [PWarn (RateWarning ''Rate limit exceeded: 20 per 3600s'')])], h)"
  using assms
  by (simp add: check_calendar_operation_def rate_calendar_create allowed_def reason_text_def Let_def)

lemma calendar_logged:
  assumes "operation \<noteq> ''create'' \<or> length (recent_actions h now ''calendar_create'' 3600) < 20"
  shows "check_calendar_operation h now now_log operation args =
     ([(''approved'', PBool True), (''warnings'', PList [])],
      h @ [\<lparr>atype = ''calendar_create'', timestamp = now_log, recipient = None\<rparr>])"
  using assms
  by (auto simp add: check_calendar_operation_def rate_calendar_create allowed_def Let_def)

text \<open>
  C5, as the claim states it, fails: with twenty calendar entries inside the window, a
  "create" call is blocked and the history stays as it was.
\<close>

theorem calendar_blocked_not_logged_counterexample:
  "snd (check_calendar_operation
          (replicate 20 \<lparr>atype = ''calendar_create'', timestamp = 0, recipient = None\<rparr>) 1 1 ''create'' []) =
     replicate 20 \<lparr>atype = ''calendar_create'', timestamp = 0, recipient = None\<rparr> \<and>
   map_of (fst (check_calendar_operation
          (replicate 20 \<lparr>atype = ''calendar_create'', timestamp = 0, recipient = None\<rparr>) 1 1 ''create'' []))
     ''approved'' = Some (PBool False)"
proof -
  have "20 \<le> length (recent_actions
          (replicate 20 \<lparr>atype = ''calendar_create'', timestamp = 0, recipient = None\<rparr>) 1 ''calendar_create'' 3600)"
    by (simp add: recent_actions_def)
  from calendar_blocked [OF this] show ?thesis by simp
qed

text \<open>
  C5, amended. A call of \<open>check_calendar_operation\<close> appends one entry, of type
  calendar_create whatever the operation, exactly when it approves; a call that is blocked
  (only a "create" over the limit can be) leaves the history unchanged.
\<close>

theorem calendar_logged_when_approved:
  "(map_of (fst (check_calendar_operation h now now_log operation args)) ''approved'' = Some (PBool False) \<or>
    map_of (fst (check_calendar_operation h now now_log operation args)) ''approved'' = Some (PBool True)) \<and>
   (map_of (fst (check_calendar_operation h now now_log operation args)) ''approved'' = Some (PBool True) \<longrightarrow>
      snd (check_calendar_operation h now now_log operation args) =
        h @ [\<lparr>atype = ''calendar_create'', timestamp = now_log, recipient = None\<rparr>]) \<and>
   (map_of (fst (check_calendar_operation h now now_log operation args)) ''approved'' = Some (PBool False) \<longrightarrow>
      snd (check_calendar_operation h now now_log operation args) = h \<and> operation = ''create'' \<and>
      20 \<le> length (recent_actions h now ''calendar_create'' 3600)) \<and>
   (operation \<noteq> ''create'' \<longrightarrow>
      map_of (fst (check_calendar_operation h now now_log operation args)) ''approved'' = Some (PBool True))"
proof (cases "operation = ''create'' \<and> 20 \<le> length (recent_actions h now ''calendar_create'' 3600)")
  case True
  then have op: "operation = ''create''" and r: "20 \<le> length (recent_actions h now ''calendar_create'' 3600)"
    by simp_all
  show ?thesis unfolding op calendar_blocked [OF r] using r by simp
next
  case False
  then have "operation \<noteq> ''create'' \<or> length (recent_actions h now ''calendar_create'' 3600) < 20"
    by auto
  from calendar_logged [OF this] show ?thesis by simp
qed

theorem calendar_logged_when_approved_witness:
  "map_of (fst (check_calendar_operation [] 0 0 ''delete'' [])) ''approved'' = Some (PBool True) \<and>
   snd (check_calendar_operation [] 0 0 ''delete'' []) =
     [] @ [\<lparr>atype = ''calendar_create'', timestamp = 0, recipient = None\<rparr>]"
proof -
  note T = calendar_logged_when_approved [of "[]" 0 0 "''delete''" "[]"]
  have ne: "''delete'' \<noteq> ''create''" by simp
  from T ne have a: "map_of (fst (check_calendar_operation [] 0 0 ''delete'' [])) ''approved'' = Some (PBool True)"
    by blast
  with T have b: "snd (check_calendar_operation [] 0 0 ''delete'' []) =
     [] @ [\<lparr>atype = ''calendar_create'', timestamp = 0, recipient = None\<rparr>]" by blast
  from a b show ?thesis by (intro conjI)
qed

subsection \<open>The email rate window\<close>

lemma recent_le: "length (recent_actions h now ty w) \<le> length h"
  by (simp add: recent_actions_def)

lemma send_all_below_limit:
  assumes "\<forall>c \<in> set calls. is_valid_email (call_to c)" "length h + length calls \<le> 10"
  shows "snd (send_all h calls) =
           h @ map (\<lambda>c. \<lparr>atype = ''email_send'', timestamp = log_time c, recipient = Some (call_to c)\<rparr>) calls \<and>
         length (fst (send_all h calls)) = length calls \<and>
         (\<forall>r \<in> set (fst (send_all h calls)). map_of r ''approved'' = Some (PBool True))"
  using assms
proof (induction calls arbitrary: h)
  case Nil
  then show ?case by simp
next
  case (Cons c calls)
  have "length (recent_actions h (check_time c) ''email_send'' 3600) \<le> length h" by (rule recent_le)
  with Cons.prems(2) have lt: "length (recent_actions h (check_time c) ''email_send'' 3600) < 10" by simp
  from Cons.prems(1) have v: "is_valid_email (call_to c)" by simp
  note step = email_approved [OF lt v, of "log_time c" "call_subject c" "call_body c"]
  let ?h' = "h @ [\<lparr>atype = ''email_send'', timestamp = log_time c, recipient = Some (call_to c)\<rparr>]"
  from Cons.prems have "\<forall>c \<in> set calls. is_valid_email (call_to c)" "length ?h' + length calls \<le> 10"
    by simp_all
  from Cons.IH [OF this] show ?case
    by (auto simp: step split: prod.splits)
qed


lemma recent_all:
  assumes "\<forall>a \<in> set h. atype a = ty \<and> now - timestamp a < int w * 1000000"
  shows "recent_actions h now ty w = h"
  using assms by (simp add: recent_actions_def)

lemma recent_none:
  assumes "\<forall>a \<in> set h. int w * 1000000 \<le> now - timestamp a"
  shows "recent_actions h now ty w = []"
  using assms by (auto simp: recent_actions_def filter_empty_conv)

lemma eleventh_blocked:
  assumes "length calls = 10" and "\<forall>c \<in> set calls. is_valid_email (call_to c)"
    and w: "\<forall>c \<in> set calls. now - log_time c < 3600 * 1000000"
  shows "map_of (fst (check_email_send (snd (send_all [] calls)) now now_log to subject body)) ''approved'' =
          Some (PBool False) \<and>
        map_of (fst (check_email_send (snd (send_all [] calls)) now now_log to subject body)) ''reason'' =
          Some (PStr ''Rate limit exceeded'') \<and>
        map_of (fst (check_email_send (snd (send_all [] calls)) now now_log to subject body)) ''reset_time'' = None \<and>
        map_of (fst (check_email_send (snd (send_all [] calls)) now now_log to subject body)) ''warnings'' =
          Some (PList (map PWarn
            ((if detected (check_sensitive_content body)
              then [SensitiveDetected (patterns (check_sensitive_content body))] else []) @
             [RateWarning ''Rate limit exceeded: 10 per 3600s'']))) \<and>
        map_of (check_rate_limit (snd (send_all [] calls)) now ''email_send'') ''reset_time'' =
          Some (PTime (log_time (hd calls)))"
proof -
  let ?entry = "\<lambda>c. \<lparr>atype = ''email_send'', timestamp = log_time c, recipient = Some (call_to c)\<rparr>"
  let ?h = "snd (send_all [] calls)"
  from assms have "length ([]::action list) + length calls \<le> 10" by simp
  from send_all_below_limit [OF assms(2) this] have h: "?h = map ?entry calls" by simp
  from w have "\<forall>a \<in> set ?h. atype a = ''email_send'' \<and> now - timestamp a < int 3600 * 1000000"
    unfolding h by simp
  then have r: "recent_actions ?h now ''email_send'' 3600 = ?h" by (rule recent_all)
  then have ge: "10 \<le> length (recent_actions ?h now ''email_send'' 3600)"
    using h assms(1) by simp
  have "calls \<noteq> []" using assms(1) by auto
  then have "hd (map ?entry calls) = ?entry (hd calls)" by (rule hd_map)
  then have hd: "timestamp (hd (recent_actions ?h now ''email_send'' 3600)) = log_time (hd calls)"
    using r h by simp
  have rl: "map_of (check_rate_limit ?h now ''email_send'') ''reset_time'' = Some (PTime (log_time (hd calls)))"
    unfolding rate_email_send using ge hd by simp
  show ?thesis unfolding email_blocked [OF ge] using rl by simp
qed

lemma later_approved:
  assumes "length calls = 10" and "\<forall>c \<in> set calls. is_valid_email (call_to c)"
    and w: "\<forall>c \<in> set calls. 3600 * 1000000 \<le> now' - log_time c" and v: "is_valid_email to'"
  shows "map_of (fst (check_email_send (snd (send_all [] calls)) now' now_log' to' subject' body')) ''approved'' =
          Some (PBool True)"
proof -
  let ?entry = "\<lambda>c. \<lparr>atype = ''email_send'', timestamp = log_time c, recipient = Some (call_to c)\<rparr>"
  let ?h = "snd (send_all [] calls)"
  from assms have "length ([]::action list) + length calls \<le> 10" by simp
  from send_all_below_limit [OF assms(2) this] have h: "?h = map ?entry calls" by simp
  from w have "\<forall>a \<in> set ?h. int 3600 * 1000000 \<le> now' - timestamp a" unfolding h by simp
  then have "recent_actions ?h now' ''email_send'' 3600 = []" by (rule recent_none)
  then have lt: "length (recent_actions ?h now' ''email_send'' 3600) < 10" by simp
  show ?thesis unfolding email_approved [OF lt v] by simp
qed

lemma sorted_hd_least:
  "xs \<noteq> [] \<Longrightarrow> sorted (map f xs) \<Longrightarrow> \<forall>x \<in> set xs. f (hd xs) \<le> f x"
  by (cases xs) auto

text \<open>
  C1, amended. Ten calls with valid single recipients, from an empty history: all ten are
  approved. An eleventh call made while the ten log times are less than 3,600 seconds old
  is not approved, whatever its body: its reason is "Rate limit exceeded", its last warning
  cites "10 per 3600s" (the only warning before it is the one of a sensitive body), and its
  result has no reset time: the reset time is in the result of the rate check, where it is
  the log time of the first call, the earliest one when the log times are in order. A call
  made when all ten log times are 3,600 seconds old or more, with a valid recipient, is
  approved again.
\<close>

theorem email_rate_window:
  assumes "length calls = 10" and "\<forall>c \<in> set calls. is_valid_email (call_to c)"
  shows
    "length (fst (send_all [] calls)) = 10 \<and>
     (\<forall>r \<in> set (fst (send_all [] calls)). map_of r ''approved'' = Some (PBool True)) \<and>
     ((\<forall>c \<in> set calls. now - log_time c < 3600 * 1000000) \<longrightarrow>
        map_of (fst (check_email_send (snd (send_all [] calls)) now now_log to subject body)) ''approved'' =
          Some (PBool False) \<and>
        map_of (fst (check_email_send (snd (send_all [] calls)) now now_log to subject body)) ''reason'' =
          Some (PStr ''Rate limit exceeded'') \<and>
        map_of (fst (check_email_send (snd (send_all [] calls)) now now_log to subject body)) ''reset_time'' = None \<and>
        map_of (fst (check_email_send (snd (send_all [] calls)) now now_log to subject body)) ''warnings'' =
          Some (PList (map PWarn
            ((if detected (check_sensitive_content body)
              then [SensitiveDetected (patterns (check_sensitive_content body))] else []) @
             [RateWarning ''Rate limit exceeded: 10 per 3600s'']))) \<and>
        map_of (check_rate_limit (snd (send_all [] calls)) now ''email_send'') ''reset_time'' =
          Some (PTime (log_time (hd calls))) \<and>
        (sorted (map log_time calls) \<longrightarrow> (\<forall>c \<in> set calls. log_time (hd calls) \<le> log_time c))) \<and>
     ((\<forall>c \<in> set calls. 3600 * 1000000 \<le> now' - log_time c) \<and> is_valid_email to' \<longrightarrow>
        map_of (fst (check_email_send (snd (send_all [] calls)) now' now_log' to' subject' body')) ''approved'' =
          Some (PBool True))"
proof -
  from assms have "length ([]::action list) + length calls \<le> 10" by simp
  from send_all_below_limit [OF assms(2) this]
  have n: "length (fst (send_all [] calls)) = 10"
    and ok: "\<forall>r \<in> set (fst (send_all [] calls)). map_of r ''approved'' = Some (PBool True)"
    using assms(1) by simp_all
  note blocked = eleventh_blocked [OF assms, of now now_log to subject body]
  have "calls \<noteq> []" using assms(1) by auto
  note earliest = sorted_hd_least [OF this, of log_time]
  note later = later_approved [OF assms, of now' to' now_log' subject' body']
  from n ok blocked earliest later show ?thesis by blast
qed

lemma ten_sends:
  "length (replicate 10 \<lparr>check_time = 0, log_time = 0, call_to = ''a@x.com'', call_subject = ''s'', call_body = ''b''\<rparr>) = 10"
  "\<forall>c \<in> set (replicate 10 \<lparr>check_time = 0, log_time = 0, call_to = ''a@x.com'', call_subject = ''s'', call_body = ''b''\<rparr>).
     is_valid_email (call_to c)"
  "\<forall>c \<in> set (replicate 10 \<lparr>check_time = 0, log_time = 0, call_to = ''a@x.com'', call_subject = ''s'', call_body = ''b''\<rparr>).
     1 - log_time c < 3600 * 1000000"
  "\<forall>c \<in> set (replicate 10 \<lparr>check_time = 0, log_time = 0, call_to = ''a@x.com'', call_subject = ''s'', call_body = ''b''\<rparr>).
     3600 * 1000000 \<le> 3600000000 - log_time c"
  using sample_addresses(1) by simp_all

theorem email_rate_window_witness:
  "length (replicate 10 \<lparr>check_time = 0, log_time = 0, call_to = ''a@x.com'', call_subject = ''s'', call_body = ''b''\<rparr>) = 10 \<and>
   is_valid_email ''a@x.com'' \<and>
   map_of (fst (check_email_send
      (snd (send_all [] (replicate 10 \<lparr>check_time = 0, log_time = 0, call_to = ''a@x.com'', call_subject = ''s'', call_body = ''b''\<rparr>)))
      1 1 ''a@x.com'' ''s'' ''b'')) ''approved'' = Some (PBool False) \<and>
   map_of (fst (check_email_send
      (snd (send_all [] (replicate 10 \<lparr>check_time = 0, log_time = 0, call_to = ''a@x.com'', call_subject = ''s'', call_body = ''b''\<rparr>)))
      3600000000 3600000000 ''a@x.com'' ''s'' ''b'')) ''approved'' = Some (PBool True)"
proof -
  note T = email_rate_window [OF ten_sends(1) ten_sends(2),
      of 1 1 "''a@x.com''" "''s''" "''b''" 3600000000 "''a@x.com''" 3600000000 "''s''" "''b''"]
  from T ten_sends(1) ten_sends(3) ten_sends(4) sample_addresses(1) show ?thesis by blast
qed

text \<open>
  C1, as the claim states it, fails in one point: the result of the blocked eleventh call
  of \<open>check_email_send\<close> reports no reset time.
\<close>

theorem email_result_without_reset_time_counterexample:
  "map_of (fst (check_email_send
      (snd (send_all [] (replicate 10 \<lparr>check_time = 0, log_time = 0, call_to = ''a@x.com'', call_subject = ''s'', call_body = ''b''\<rparr>)))
      1 1 ''a@x.com'' ''s'' ''b'')) ''approved'' = Some (PBool False) \<and>
   map_of (fst (check_email_send
      (snd (send_all [] (replicate 10 \<lparr>check_time = 0, log_time = 0, call_to = ''a@x.com'', call_subject = ''s'', call_body = ''b''\<rparr>)))
      1 1 ''a@x.com'' ''s'' ''b'')) ''reset_time'' = None"
  using eleventh_blocked [OF ten_sends(1) ten_sends(2) ten_sends(3), of 1 "''a@x.com''" "''s''" "''b''"]
  by blast

subsection \<open>Sensitive content on the two paths\<close>

lemma findall_iff_search:
  "findall_from fl r p s 0 \<noteq> [] \<longleftrightarrow> search_from fl r p s i \<noteq> None"
  by (induction s arbitrary: p i) (auto split: list.splits)

lemma findall_search:
  "re_findall fl r s \<noteq> [] \<longleftrightarrow> re_search fl r s \<noteq> None"
  unfolding re_findall_def re_search_def by (rule findall_iff_search)

lemma credit_card_detected:
  assumes "re_search ic_flags credit_card_rx text \<noteq> None"
  shows "detected (check_sensitive_content text)"
    and "\<exists>n>0. (''credit_card'', n) \<in> set (patterns (check_sensitive_content text))"
proof -
  from assms findall_search [of ic_flags credit_card_rx "text"]
  have ne: "re_findall ic_flags credit_card_rx text \<noteq> []" by blast
  then have len: "0 < length (re_findall ic_flags credit_card_rx text)" by simp
  show "detected (check_sensitive_content text)"
    using ne by (simp add: check_sensitive_content_def SENSITIVE_PATTERNS_def Let_def)
  have "(''credit_card'', length (re_findall ic_flags credit_card_rx text))
          \<in> set (patterns (check_sensitive_content text))"
    using ne by (simp add: check_sensitive_content_def SENSITIVE_PATTERNS_def Let_def)
  with len show "\<exists>n>0. (''credit_card'', n) \<in> set (patterns (check_sensitive_content text))" by blast
qed

lemma user_request_rejected:
  assumes "re_search ic_flags credit_card_rx text \<noteq> None" "map_of args ''input'' = Some text"
  shows "map_of (fst (apply_guardrails str_of h now now_log ''user_request'' args)) ''approved'' =
           Some (PBool False)"
  using assms
  by (simp add: apply_guardrails_def get_arg_def SENSITIVE_PATTERNS_def Let_def)

lemma allowed_email_send:
  "allowed (check_rate_limit h now ''email_send'') \<longleftrightarrow>
   length (recent_actions h now ''email_send'' 3600) < 10"
  by (auto simp: rate_email_send allowed_def)


lemma cats_Cons: "cats (r # rs) = Cat r (cats rs)"
  by (simp add: cats_def)

lemma prev_at_append:
  "prev_at p (x @ rest) (length x) = (if x = [] then p else Some (last x))"
  by (simp add: prev_at_def nth_append last_conv_nth)

lemma cat_step:
  assumes "length x \<in> set (rmatch fl r p (x @ rest))"
    and "m \<in> set (rmatch fl (cats rs) (if x = [] then p else Some (last x)) rest)"
  shows "length x + m \<in> set (rmatch fl (cats (r # rs)) p (x @ rest))"
proof -
  have "m \<in> set (rmatch fl (cats rs) (prev_at p (x @ rest) (length x)) (drop (length x) (x @ rest)))"
    using assms(2) by (simp only: prev_at_append drop_append append_Nil drop_all order_refl diff_self_eq_0 drop_0)
  with assms(1) show ?thesis
    unfolding cats_Cons rmatch_Cat_iff by blast
qed

lemma digit4_here:
  assumes "digit_group g"
  shows "length g \<in> set (rmatch ic_flags digit4 p (g @ rest))"
proof -
  from assms have l: "length g = 4" and d: "\<forall>c \<in> set g. atom_match ic_flags (Cls [CDigit]) c"
    by (auto simp: digit_group_def list_all_iff)
  from d have "takeWhile (atom_match ic_flags (Cls [CDigit])) (g @ rest) =
      g @ takeWhile (atom_match ic_flags (Cls [CDigit])) rest"
    by (simp add: takeWhile_append2)
  then have "min 4 (length (takeWhile (atom_match ic_flags (Cls [CDigit])) (g @ rest))) = 4"
    using l by simp
  then show ?thesis using l by (simp add: digit4_def Let_def)
qed

lemma sep_here:
  assumes "card_gap s"
  shows "length s \<in> set (rmatch ic_flags card_sep p (s @ rest))"
proof (cases s)
  case Nil
  then show ?thesis by (simp add: card_sep_def)
next
  case (Cons c cs)
  with assms have "cs = []" "is_space c \<or> c = CHR ''-''" by (auto simp: card_gap_def)
  with Cons show ?thesis by (auto simp: card_sep_def)
qed

lemma digit_group_word:
  assumes "digit_group g"
  shows "g \<noteq> []" "is_word (last g)" "is_word (hd g)"
proof -
  from assms show ne: "g \<noteq> []" by (auto simp: digit_group_def)
  from assms have "\<forall>c \<in> set g. is_word c" by (auto simp: digit_group_def list_all_iff is_word_def)
  with ne show "is_word (last g)" "is_word (hd g)" by simp_all
qed

lemma card_number_matches:
  assumes g: "digit_group g1" "digit_group g2" "digit_group g3" "digit_group g4"
    and s: "card_gap s1" "card_gap s2" "card_gap s3"
    and p: "\<not> word_opt p" and post: "post = [] \<or> \<not> is_word (hd post)"
  shows "rmatch ic_flags credit_card_rx p (g1 @ s1 @ g2 @ s2 @ g3 @ s3 @ g4 @ post) \<noteq> []"
proof -
  let ?fl = ic_flags
  have w4: "word_opt (Some (last g4))" using digit_group_word(2) [OF g(4)] by (simp add: word_opt_def)
  have "\<not> word_opt (head_opt post)" using post by (cases post) (auto simp: word_opt_def head_opt_def)
  with w4 have "length ([]::string) \<in> set (rmatch ?fl WordB (Some (last g4)) ([] @ post))" by simp
  moreover have "0 \<in> set (rmatch ?fl (cats []) (if ([]::string) = [] then Some (last g4) else Some (last [])) post)"
    by (simp add: cats_def)
  ultimately have e1: "0 \<in> set (rmatch ?fl (cats [WordB]) (Some (last g4)) post)"
    using cat_step [of "[]" ?fl WordB "Some (last g4)" post 0 "[]"] by simp
  have e2: "length g4 + 0 \<in> set (rmatch ?fl (cats [digit4, WordB]) q (g4 @ post))" for q
  proof (rule cat_step)
    show "length g4 \<in> set (rmatch ?fl digit4 q (g4 @ post))" by (rule digit4_here [OF g(4)])
    show "0 \<in> set (rmatch ?fl (cats [WordB]) (if g4 = [] then q else Some (last g4)) post)"
      using e1 digit_group_word(1) [OF g(4)] by simp
  qed
  have e3: "length s3 + (length g4 + 0) \<in> set (rmatch ?fl (cats [card_sep, digit4, WordB]) q (s3 @ g4 @ post))" for q
    by (rule cat_step [OF sep_here [OF s(3)] e2])
  have e4: "length g3 + (length s3 + (length g4 + 0)) \<in>
      set (rmatch ?fl (cats [digit4, card_sep, digit4, WordB]) q (g3 @ s3 @ g4 @ post))" for q
    by (rule cat_step [OF digit4_here [OF g(3)] e3])
  have e5: "length s2 + (length g3 + (length s3 + (length g4 + 0))) \<in>
      set (rmatch ?fl (cats [card_sep, digit4, card_sep, digit4, WordB]) q (s2 @ g3 @ s3 @ g4 @ post))" for q
    by (rule cat_step [OF sep_here [OF s(2)] e4])
  have e6: "length g2 + (length s2 + (length g3 + (length s3 + (length g4 + 0)))) \<in>
      set (rmatch ?fl (cats [digit4, card_sep, digit4, card_sep, digit4, WordB]) q
             (g2 @ s2 @ g3 @ s3 @ g4 @ post))" for q
    by (rule cat_step [OF digit4_here [OF g(2)] e5])
  have e7: "length s1 + (length g2 + (length s2 + (length g3 + (length s3 + (length g4 + 0))))) \<in>
      set (rmatch ?fl (cats [card_sep, digit4, card_sep, digit4, card_sep, digit4, WordB]) q
             (s1 @ g2 @ s2 @ g3 @ s3 @ g4 @ post))" for q
    by (rule cat_step [OF sep_here [OF s(1)] e6])
  have e8: "length g1 + (length s1 + (length g2 + (length s2 + (length g3 + (length s3 + (length g4 + 0)))))) \<in>
      set (rmatch ?fl (cats [digit4, card_sep, digit4, card_sep, digit4, card_sep, digit4, WordB]) q
             (g1 @ s1 @ g2 @ s2 @ g3 @ s3 @ g4 @ post))" for q
    by (rule cat_step [OF digit4_here [OF g(1)] e7])
  let ?rest = "g1 @ s1 @ g2 @ s2 @ g3 @ s3 @ g4 @ post"
  have "head_opt ?rest = Some (hd g1)"
    using digit_group_word(1) [OF g(1)] by (cases g1) (simp_all add: head_opt_def)
  then have "word_opt (head_opt ?rest)" using digit_group_word(3) [OF g(1)] by (simp add: word_opt_def)
  with p have b: "length ([]::string) \<in> set (rmatch ?fl WordB p ([] @ ?rest))" by simp
  have "length ([]::string) + (length g1 + (length s1 + (length g2 + (length s2 + (length g3 + (length s3 + (length g4 + 0))))))) \<in>
      set (rmatch ?fl (cats [WordB, digit4, card_sep, digit4, card_sep, digit4, card_sep, digit4, WordB]) p ([] @ ?rest))"
    by (rule cat_step [OF b]) (simp only: refl if_True e8)
  then show ?thesis unfolding credit_card_rx_def by (simp only: append_Nil) (metis empty_iff empty_set)
qed

lemma search_at:
  assumes "rmatch fl r (if pre = [] then p else Some (last pre)) s \<noteq> []"
  shows "search_from fl r p (pre @ s) i \<noteq> None"
  using assms
proof (induction pre arbitrary: p i)
  case Nil
  then show ?case by (cases s) (auto split: list.splits)
next
  case (Cons c pre)
  from Cons.prems have "rmatch fl r (if pre = [] then Some c else Some (last pre)) s \<noteq> []"
    by (simp split: if_splits)
  from Cons.IH [OF this] show ?case by (simp split: list.splits)
qed

lemma card_number_found:
  assumes g: "digit_group g1" "digit_group g2" "digit_group g3" "digit_group g4"
    and s: "card_gap s1" "card_gap s2" "card_gap s3"
    and f: "stands_free pre post"
  shows "re_search ic_flags credit_card_rx (pre @ g1 @ s1 @ g2 @ s2 @ g3 @ s3 @ g4 @ post) \<noteq> None"
proof -
  from f have "\<not> word_opt (if pre = [] then None else Some (last pre))"
    by (auto simp: stands_free_def word_opt_def)
  moreover from f have "post = [] \<or> \<not> is_word (hd post)" by (simp add: stands_free_def)
  ultimately have "rmatch ic_flags credit_card_rx (if pre = [] then None else Some (last pre))
      (g1 @ s1 @ g2 @ s2 @ g3 @ s3 @ g4 @ post) \<noteq> []"
    by (rule card_number_matches [OF g s])
  then show ?thesis unfolding re_search_def by (rule search_at)
qed

lemma sample_shape:
  "digit_group ''4111''" "digit_group ''1111''" "card_gap '' ''" "card_gap ''-''" "card_gap ''''"
  "stands_free ''card '' '' ok''" "\<not> stands_free ''ref_'' ''''" "\<not> stands_free '''' ''x''"
  by code_simp+

lemma ref_not_sensitive: "\<not> detected (check_sensitive_content ''ref_4111-1111-1111-1111'')"
  by code_simp

lemma ref_user_request:
  "map_of (fst (apply_guardrails
       (\<lambda>args. ''{'' @ [CHR 0x27] @ ''input'' @ [CHR 0x27] @ '': '' @ [CHR 0x27] @
                ''ref_4111-1111-1111-1111'' @ [CHR 0x27] @ ''}'')
       [] 0 0 ''user_request'' [(''input'', ''ref_4111-1111-1111-1111'')])) ''approved'' = Some (PBool True)"
  by code_simp

text \<open>
  C2, as the claim states it, fails. The pattern wants a word boundary on either side of
  the number, and the underscore is a word character: the text "ref_4111-1111-1111-1111"
  holds sixteen digits in four groups joined by hyphens, yet as the input of a
  "user_request" it is approved, and as the body of an email it is approved with
  \<^verbatim>\<open>requires_human\<close> false and no warning.
\<close>

theorem credit_card_after_underscore_counterexample:
  "''ref_4111-1111-1111-1111'' = ''ref_'' @ ''4111'' @ ''-'' @ ''1111'' @ ''-'' @ ''1111'' @ ''-'' @ ''1111'' @ '''' \<and>
   digit_group ''4111'' \<and> digit_group ''1111'' \<and> card_gap ''-'' \<and>
   map_of (fst (apply_guardrails
       (\<lambda>args. ''{'' @ [CHR 0x27] @ ''input'' @ [CHR 0x27] @ '': '' @ [CHR 0x27] @
                ''ref_4111-1111-1111-1111'' @ [CHR 0x27] @ ''}'')
       [] 0 0 ''user_request'' [(''input'', ''ref_4111-1111-1111-1111'')])) ''approved'' = Some (PBool True) \<and>
   map_of (fst (check_email_send [] 0 0 ''a@x.com'' ''s'' ''ref_4111-1111-1111-1111'')) ''approved'' =
     Some (PBool True) \<and>
   map_of (fst (check_email_send [] 0 0 ''a@x.com'' ''s'' ''ref_4111-1111-1111-1111'')) ''requires_human'' =
     Some (PBool False) \<and>
   map_of (fst (check_email_send [] 0 0 ''a@x.com'' ''s'' ''ref_4111-1111-1111-1111'')) ''warnings'' =
     Some (PList [])"
proof -
  have lt: "length (recent_actions [] 0 ''email_send'' 3600) < 10" by (simp add: recent_empty)
  have e: "check_email_send [] 0 0 ''a@x.com'' ''s'' ''ref_4111-1111-1111-1111'' =
     ([(''approved'', PBool True), (''warnings'', PList []), (''requires_human'', PBool False)],
      [] @ [\<lparr>atype = ''email_send'', timestamp = 0, recipient = Some ''a@x.com''\<rparr>])"
    unfolding email_approved [OF lt sample_addresses(1)] using ref_not_sensitive by simp
  have m: "map_of (fst (check_email_send [] 0 0 ''a@x.com'' ''s'' ''ref_4111-1111-1111-1111'')) ''approved'' =
     Some (PBool True)"
    "map_of (fst (check_email_send [] 0 0 ''a@x.com'' ''s'' ''ref_4111-1111-1111-1111'')) ''requires_human'' =
     Some (PBool False)"
    "map_of (fst (check_email_send [] 0 0 ''a@x.com'' ''s'' ''ref_4111-1111-1111-1111'')) ''warnings'' =
     Some (PList [])"
    unfolding e by simp_all
  have t: "''ref_4111-1111-1111-1111'' = ''ref_'' @ ''4111'' @ ''-'' @ ''1111'' @ ''-'' @ ''1111'' @ ''-'' @ ''1111'' @ ''''"
    by simp
  from t sample_shape(1,2,4) ref_user_request m show ?thesis by blast
qed

text \<open>
  C2, amended. Let a text hold four groups of four digits, neighbouring groups joined
  directly or by one white-space character or hyphen, with no word character just before
  or just after. As the input of a "user_request", \<open>apply_guardrails\<close> does not approve
  it. As the body of an email with a valid recipient and the rate limit not exceeded,
  \<open>check_email_send\<close> approves it, with \<^verbatim>\<open>requires_human\<close> true and the one warning of
  sensitive content, which lists credit_card with a positive count.
\<close>

theorem credit_card_paths_diverge:
  assumes "digit_group g1" "digit_group g2" "digit_group g3" "digit_group g4"
    and "card_gap s1" "card_gap s2" "card_gap s3"
    and "stands_free pre post"
    and "text = pre @ g1 @ s1 @ g2 @ s2 @ g3 @ s3 @ g4 @ post"
  shows "(map_of args ''input'' = Some text \<longrightarrow>
           map_of (fst (apply_guardrails str_of h now now_log ''user_request'' args)) ''approved'' =
             Some (PBool False)) \<and>
         (is_valid_email to \<and> allowed (check_rate_limit h now ''email_send'') \<longrightarrow>
           map_of (fst (check_email_send h now now_log to subject text)) ''approved'' = Some (PBool True) \<and>
           map_of (fst (check_email_send h now now_log to subject text)) ''requires_human'' = Some (PBool True) \<and>
           (\<exists>ps. map_of (fst (check_email_send h now now_log to subject text)) ''warnings'' =
                   Some (PList [PWarn (SensitiveDetected ps)]) \<and>
                 (\<exists>n>0. (''credit_card'', n) \<in> set ps)))"
proof -
  have found: "re_search ic_flags credit_card_rx text \<noteq> None"
    unfolding assms(9) by (rule card_number_found [OF assms(1-8)])
  note d = credit_card_detected [OF found]
  have email: "map_of (fst (check_email_send h now now_log to subject text)) ''approved'' = Some (PBool True) \<and>
           map_of (fst (check_email_send h now now_log to subject text)) ''requires_human'' = Some (PBool True) \<and>
           (\<exists>ps. map_of (fst (check_email_send h now now_log to subject text)) ''warnings'' =
                   Some (PList [PWarn (SensitiveDetected ps)]) \<and>
                 (\<exists>n>0. (''credit_card'', n) \<in> set ps))"
    if v: "is_valid_email to" and a: "allowed (check_rate_limit h now ''email_send'')"
  proof -
    from a have lt: "length (recent_actions h now ''email_send'' 3600) < 10"
      by (simp only: allowed_email_send)
    show ?thesis unfolding email_approved [OF lt v] using d by simp
  qed
  from user_request_rejected [OF found] email show ?thesis by blast
qed

theorem credit_card_paths_diverge_witness:
  "digit_group ''4111'' \<and> digit_group ''1111'' \<and> card_gap '' '' \<and> stands_free ''card '' '' ok'' \<and>
   is_valid_email ''a@x.com'' \<and> allowed (check_rate_limit [] 0 ''email_send'') \<and>
   map_of (fst (apply_guardrails (\<lambda>args. []) [] 0 0 ''user_request''
                  [(''input'', ''card 4111 1111 1111 1111 ok'')])) ''approved'' = Some (PBool False) \<and>
   map_of (fst (check_email_send [] 0 0 ''a@x.com'' ''s'' ''card 4111 1111 1111 1111 ok'')) ''approved'' =
     Some (PBool True) \<and>
   map_of (fst (check_email_send [] 0 0 ''a@x.com'' ''s'' ''card 4111 1111 1111 1111 ok'')) ''requires_human'' =
     Some (PBool True)"
proof -
  have i: "map_of [(''input'', ''card 4111 1111 1111 1111 ok'')] ''input'' = Some ''card 4111 1111 1111 1111 ok''"
    by simp
  have a: "allowed (check_rate_limit [] 0 ''email_send'')"
    by (simp add: allowed_email_send recent_empty)
  have t: "''card 4111 1111 1111 1111 ok'' =
      ''card '' @ ''4111'' @ '' '' @ ''1111'' @ '' '' @ ''1111'' @ '' '' @ ''1111'' @ '' ok''"
    by simp
  note T = credit_card_paths_diverge [OF sample_shape(1) sample_shape(2) sample_shape(2) sample_shape(2)
      sample_shape(3) sample_shape(3) sample_shape(3) sample_shape(6) t,
      of "[(''input'', ''card 4111 1111 1111 1111 ok'')]" "\<lambda>args. []" "[]" 0 0 "''a@x.com''" "''s''"]
  from T i a sample_addresses(1) sample_shape show ?thesis by blast
qed

section \<open>JSON extraction\<close>

subsection \<open>No line of a JSON text starts with a backtick\<close>

lemma lsf_weaken: "line_start_free None s \<Longrightarrow> line_start_free p s"
  by (cases s) auto

lemma lsf_append:
  "line_start_free p a \<Longrightarrow> line_start_free None b \<Longrightarrow> line_start_free p (a @ b)"
  by (induction a arbitrary: p) (auto intro: lsf_weaken)

lemma lsf_no_newline:
  "newline \<notin> set a \<Longrightarrow> p \<noteq> None \<Longrightarrow> p \<noteq> Some newline \<Longrightarrow> line_start_free p a"
  by (induction a arbitrary: p) auto

lemma lsf_no_tick: "CHR 0x60 \<notin> set a \<Longrightarrow> line_start_free p a"
  by (induction a arbitrary: p) auto

lemma hex4_no_newline: "hex4 s = Some u \<Longrightarrow> newline \<notin> set s"
proof -
  assume h: "hex4 s = Some u"
  then obtain a b c d where m: "map hex_val s = [Some a, Some b, Some c, Some d]"
    by (auto simp: hex4_def split: list.splits option.splits)
  have nl: "hex_val newline = None"
    by (simp add: hex_val_def newline_def is_digit_def in_range_def)
  show "newline \<notin> set s"
  proof
    assume "newline \<in> set s"
    then have "hex_val newline \<in> set (map hex_val s)" by simp
    with m nl show False by auto
  qed
qed

lemma low_surrogate_no_newline:
  assumes "low_surrogate uni s = Some uni2"
  shows "newline \<notin> set (take 6 s)"
proof -
  from assms have t: "take 2 s = [CHR 0x5C, CHR ''u'']" and h: "hex4 (take 4 (drop 2 s)) \<noteq> None"
    by (auto simp: low_surrogate_def split: if_splits option.splits)
  from h obtain u where "hex4 (take 4 (drop 2 s)) = Some u" by auto
  then have a: "newline \<notin> set (take 4 (drop 2 s))" by (rule hex4_no_newline)
  have "take 6 s = take 2 s @ take 4 (drop 2 s)"
    using take_add [of 2 4 s] by simp
  with t a show ?thesis by (simp add: newline_def)
qed

lemma scanstring_body:
  "scanstring s = Some (v, rest) \<Longrightarrow> \<exists>body. s = body @ rest \<and> newline \<notin> set body"
proof (induction "length s" arbitrary: s v rest rule: less_induct)
  case less
  show ?case
  proof (cases s)
    case Nil
    with less.prems show ?thesis by simp
  next
    case (Cons c cs)
    show ?thesis
    proof (cases "c = CHR 0x22")
      case True
      with less.prems Cons have "rest = cs" by simp
      with Cons True show ?thesis by (intro exI [of _ "[c]"]) (simp add: newline_def)
    next
      case nq: False
      show ?thesis
      proof (cases "c = CHR 0x5C")
        case False
        with less.prems Cons nq obtain v' where c32: "\<not> (of_char c :: nat) < 32"
          and r: "scanstring cs = Some (v', rest)"
          by (auto simp: add_code_def split: if_splits)
        from less.hyps [OF _ r] Cons obtain body where b: "cs = body @ rest" "newline \<notin> set body"
          by auto
        from c32 have "c \<noteq> newline" by (auto simp: newline_def)
        with b Cons show ?thesis by (intro exI [of _ "c # body"]) simp
      next
        case True
        with less.prems Cons nq obtain e es where cs: "cs = e # es" by (cases cs) auto
        show ?thesis
        proof (cases "e = CHR ''u''")
          case False
          with less.prems Cons nq True cs obtain v' where r: "scanstring es = Some (v', rest)"
            and e: "map_of BACKSLASH e \<noteq> None"
            by (auto simp: add_code_def split: option.splits)
          from less.hyps [OF _ r] Cons cs obtain body where b: "es = body @ rest" "newline \<notin> set body"
            by auto
          from e have "e \<noteq> newline" by (auto simp: BACKSLASH_def newline_def split: if_splits)
          moreover from True have "c \<noteq> newline" by (simp add: newline_def)
          ultimately show ?thesis using b Cons cs by (intro exI [of _ "c # e # body"]) simp
        next
          case u: True
          from less.prems Cons nq True cs u obtain uni where hx: "hex4 (take 4 es) = Some uni"
            by (auto simp: add_code_def split: option.splits)
          from hx have h4: "newline \<notin> set (take 4 es)" by (rule hex4_no_newline)
          have cnl: "c \<noteq> newline" "e \<noteq> newline" using True u by (simp_all add: newline_def)
          show ?thesis
          proof (cases "low_surrogate uni (drop 4 es)")
            case None
            with less.prems Cons nq True cs u hx obtain v' where r: "scanstring (drop 4 es) = Some (v', rest)"
              by (auto simp: add_code_def)
            have "length (drop 4 es) < length s" using Cons cs by simp
            from less.hyps [OF this r] obtain body where b: "drop 4 es = body @ rest" "newline \<notin> set body"
              by auto
            have "es = take 4 es @ body @ rest" using b(1) by (metis append_take_drop_id)
            with b(2) h4 cnl Cons cs show ?thesis
              by (intro exI [of _ "c # e # take 4 es @ body"]) simp
          next
            case (Some uni2)
            with less.prems Cons nq True cs u hx obtain v' where r: "scanstring (drop 10 es) = Some (v', rest)"
              by (auto simp: add_code_def)
            have "length (drop 10 es) < length s" using Cons cs by simp
            from less.hyps [OF this r] obtain body where b: "drop 10 es = body @ rest" "newline \<notin> set body"
              by auto
            from low_surrogate_no_newline [OF Some] have l6: "newline \<notin> set (take 6 (drop 4 es))" .
            have "take 10 es = take 4 es @ take 6 (drop 4 es)" using take_add [of 4 6 es] by simp
            with h4 l6 have t10: "newline \<notin> set (take 10 es)" by simp
            have "es = take 10 es @ body @ rest" using b(1) by (metis append_take_drop_id)
            with b(2) t10 cnl Cons cs show ?thesis
              by (intro exI [of _ "c # e # take 10 es @ body"]) simp
          qed
        qed
      qed
    qed
  qed
qed


lemma number_no_tick: "\<not> rx_chars no_flags number_rx (CHR 0x60)"
  by (simp add: number_rx_def cats_def digits_rx_def no_flags_def in_range_def)

lemma prefix_take: "prefix lit s \<Longrightarrow> take (length lit) s = lit"
  by (auto simp: prefix_def)

lemma scan_scalar_consumed:
  assumes "scan_scalar s = Some (v, n)"
  shows "CHR 0x60 \<notin> set (take n s)"
proof -
  consider (lit) lit where "prefix lit s" "n = length lit" "CHR 0x60 \<notin> set lit"
    | (num) "n \<in> set (rmatch no_flags number_rx None s)"
    using assms
    by (fastforce simp: scan_scalar_def split: if_splits list.splits)
  then show ?thesis
  proof cases
    case lit
    then show ?thesis by (simp add: prefix_take)
  next
    case num
    from rmatch_consumes [OF num] number_no_tick show ?thesis by blast
  qed
qed

lemma punct_no_tick: "map_of punct c = Some t \<Longrightarrow> c \<noteq> CHR 0x60"
  by (auto simp: punct_def split: if_splits)

lemma lex_line_start_free: "lex s = Some ts \<Longrightarrow> line_start_free None s"
proof (induction "length s" arbitrary: s ts rule: less_induct)
  case less
  show ?case
  proof (cases s)
    case Nil
    then show ?thesis by simp
  next
    case (Cons c cs)
    consider (sp) "json_space c" | (pu) t where "\<not> json_space c" "map_of punct c = Some t"
      | (st) "\<not> json_space c" "map_of punct c = None" "c = CHR 0x22"
      | (sc) "\<not> json_space c" "map_of punct c = None" "c \<noteq> CHR 0x22"
      by (cases "map_of punct c") blast+
    then show ?thesis
    proof cases
      case sp
      with less.prems Cons have "lex cs = Some ts" by simp
      from less.hyps [OF _ this] Cons have "line_start_free None cs" by simp
      moreover from sp have "c \<noteq> CHR 0x60" by (auto simp: json_space_def)
      ultimately show ?thesis using Cons by (simp add: lsf_weaken)
    next
      case pu
      with less.prems Cons obtain ts' where "lex cs = Some ts'" by (auto simp: add_token_def)
      from less.hyps [OF _ this] Cons have "line_start_free None cs" by simp
      moreover from pu have "c \<noteq> CHR 0x60" by (auto dest: punct_no_tick)
      ultimately show ?thesis using Cons by (simp add: lsf_weaken)
    next
      case st
      with less.prems Cons obtain v rest ts' where sc: "scanstring cs = Some (v, rest)"
        and lx: "lex rest = Some ts'"
        by (auto simp: add_token_def split: option.splits)
      from scanstring_shorter [OF sc] Cons have "length rest < length s" by simp
      from less.hyps [OF this lx] have r: "line_start_free None rest" .
      from scanstring_body [OF sc] obtain body where b: "cs = body @ rest" "newline \<notin> set body" by auto
      from st have cq: "Some c \<noteq> Some newline" by (simp add: newline_def)
      from lsf_no_newline [OF b(2) _ cq] have "line_start_free (Some c) body" by simp
      from lsf_append [OF this r] have "line_start_free (Some c) cs" unfolding b(1) .
      with st Cons show ?thesis by simp
    next
      case sc
      with less.prems Cons obtain v n ts' where ss: "scan_scalar s = Some (v, n)" and n: "n \<noteq> 0"
        and lx: "lex (drop (n - 1) cs) = Some ts'"
        by (auto simp: add_token_def split: option.splits if_splits)
      from n Cons have d: "drop n s = drop (n - 1) cs" by (cases n) simp_all
      have "length (drop (n - 1) cs) < length s" using Cons by simp
      from less.hyps [OF this lx] have r: "line_start_free None (drop n s)" unfolding d .
      from scan_scalar_consumed [OF ss] have "line_start_free None (take n s)" by (rule lsf_no_tick)
      from lsf_append [OF this r] show ?thesis by simp
    qed
  qed
qed

lemma json_line_start_free: "json_loads s = Inr v \<Longrightarrow> line_start_free None s"
  by (auto simp: json_loads_def split: option.splits dest: lex_line_start_free)

subsection \<open>Deleting the fences keeps the object\<close>

lemma map_add_zero: "map (\<lambda>m. (0::nat) + m) xs = xs"
  by (induction xs) auto

lemma rmatch_Cat_Bol:
  assumes "rmatch fl (Cat Bol b) p s \<noteq> []"
  shows "(p = None \<or> p = Some newline) \<and> rmatch fl b p s \<noteq> []"
proof -
  have "rmatch fl (Cat Bol b) p s =
     (if p = None \<or> (multiline fl \<and> p = Some newline) then rmatch fl b p s else [])"
    by (auto simp: prev_at_def map_add_zero)
  with assms show ?thesis by (auto split: if_splits)
qed

lemma rmatch_Cat_Lit:
  assumes "rmatch fl (Cat (At (Lit c)) b) p s \<noteq> []" "\<not> ignorecase fl"
  shows "\<exists>t. s = c # t \<and> rmatch fl b (Some c) t \<noteq> []"
proof (cases s)
  case Nil
  with assms show ?thesis by simp
next
  case (Cons x t)
  with assms have "x = c" by (auto split: if_splits)
  with assms Cons show ?thesis by (simp add: prev_at_def)
qed

lemma fence_open_shape:
  "\<exists>R. fence_open_rx = Cat Bol (Cat (At (Lit (CHR 0x60))) R)"
  by (simp add: fence_open_rx_def cats_def backticks_def)

lemma fence_close_shape:
  "\<exists>R. fence_close_rx = Cat (At (Lit newline)) (Cat (At (Lit (CHR 0x60))) R)"
  by (simp add: fence_close_rx_def cats_def backticks_def)

lemma ml_case: "\<not> ignorecase ml_flags"
  by (simp add: ml_flags_def)

lemma fence_open_trigger:
  assumes "rmatch ml_flags fence_open_rx p s \<noteq> []"
  shows "(p = None \<or> p = Some newline) \<and> (\<exists>t. s = CHR 0x60 # t)"
proof -
  from fence_open_shape obtain R where R: "fence_open_rx = Cat Bol (Cat (At (Lit (CHR 0x60))) R)" ..
  from assms [unfolded R] rmatch_Cat_Bol
  have a: "p = None \<or> p = Some newline"
    and b: "rmatch ml_flags (Cat (At (Lit (CHR 0x60))) R) p s \<noteq> []" by blast+
  from rmatch_Cat_Lit [OF b ml_case] a show ?thesis by blast
qed

lemma fence_close_trigger:
  assumes "rmatch ml_flags fence_close_rx p s \<noteq> []"
  shows "\<exists>t. s = newline # CHR 0x60 # t"
proof -
  from fence_close_shape obtain R where
    R: "fence_close_rx = Cat (At (Lit newline)) (Cat (At (Lit (CHR 0x60))) R)" ..
  from rmatch_Cat_Lit [OF assms [unfolded R] ml_case] obtain t where
    t: "s = newline # t" "rmatch ml_flags (Cat (At (Lit (CHR 0x60))) R) (Some newline) t \<noteq> []"
    by blast
  from rmatch_Cat_Lit [OF t(2) ml_case] t(1) show ?thesis by blast
qed

lemma fence_no_brace:
  "\<not> rx_chars ml_flags fence_open_rx CHR ''{''" "\<not> rx_chars ml_flags fence_close_rx CHR ''{''"
  by (simp_all add: fence_open_rx_def fence_close_rx_def cats_def backticks_def ml_flags_def
        newline_def is_space_def in_range_def)

lemma sub_set: "set (sub_from fl r p s k) \<subseteq> set s"
  by (induction s arbitrary: p k) (auto split: list.splits if_splits)

lemma sub_inside:
  assumes trig: "\<And>p s. rmatch fl r p s \<noteq> [] \<Longrightarrow>
      ((p = None \<or> p = Some newline) \<and> (\<exists>t. s = CHR 0x60 # t)) \<or> (\<exists>t. s = newline # CHR 0x60 # t)"
  shows "line_start_free p ob \<Longrightarrow> ob \<noteq> [] \<Longrightarrow> last ob \<noteq> newline \<Longrightarrow>
         sub_from fl r p (ob @ b) 0 = ob @ sub_from fl r (Some (last ob)) b 0"
proof (induction ob arbitrary: p)
  case Nil
  then show ?case by simp
next
  case (Cons x ob')
  have nm: "rmatch fl r p (x # ob' @ b) = []"
  proof (rule ccontr)
    assume "rmatch fl r p (x # ob' @ b) \<noteq> []"
    from trig [OF this] show False
    proof
      assume "(p = None \<or> p = Some newline) \<and> (\<exists>t. x # ob' @ b = CHR 0x60 # t)"
      with Cons.prems(1) show False by auto
    next
      assume "\<exists>t. x # ob' @ b = newline # CHR 0x60 # t"
      then obtain t where t: "x = newline" "ob' @ b = CHR 0x60 # t" by auto
      show False
      proof (cases ob')
        case Nil
        with Cons.prems(3) t(1) show False by simp
      next
        case (Cons y ys)
        with t have "y = CHR 0x60" by simp
        with Cons \<open>line_start_free p (x # ob')\<close> t(1) show False by simp
      qed
    qed
  qed
  then have step: "sub_from fl r p ((x # ob') @ b) 0 = x # sub_from fl r (Some x) (ob' @ b) 0"
    by simp
  show ?case
  proof (cases "ob' = []")
    case True
    with step show ?thesis by simp
  next
    case False
    from Cons.prems(1) have l: "line_start_free (Some x) ob'" by simp
    from Cons.prems(3) False have "last ob' \<noteq> newline" by simp
    from Cons.IH [OF l False this] step False show ?thesis by simp
  qed
qed

lemma sub_prefix:
  assumes chars: "\<not> rx_chars fl r c0"
  shows "k \<le> length a \<Longrightarrow>
         \<exists>a'. sub_from fl r p (a @ c0 # rest) k =
                 a' @ sub_from fl r (if a = [] then p else Some (last a)) (c0 # rest) 0 \<and>
               set a' \<subseteq> set a"
proof (induction a arbitrary: p k)
  case Nil
  then show ?case by simp
next
  case (Cons x a1)
  let ?q = "if a1 = [] then Some x else Some (last a1)"
  have q: "(if x # a1 = [] then p else Some (last (x # a1))) = ?q" by simp
  have rec: "\<exists>a'. sub_from fl r (Some x) (a1 @ c0 # rest) j = a' @ sub_from fl r ?q (c0 # rest) 0 \<and>
               set a' \<subseteq> set a1" if "j \<le> length a1" for j
    using Cons.IH [OF that, of "Some x"] by simp
  show ?case
  proof (cases "0 < k")
    case True
    with Cons.prems have "k - 1 \<le> length a1" by simp
    from rec [OF this] obtain a' where
      a': "sub_from fl r (Some x) (a1 @ c0 # rest) (k - 1) = a' @ sub_from fl r ?q (c0 # rest) 0"
        "set a' \<subseteq> set a1" by blast
    from True have "sub_from fl r p ((x # a1) @ c0 # rest) k =
        sub_from fl r (Some x) (a1 @ c0 # rest) (k - 1)" by simp
    with a' show ?thesis unfolding q by (intro exI [of _ a']) auto
  next
    case False
    then have k0: "k = 0" by simp
    show ?thesis
    proof (cases "rmatch fl r p (x # a1 @ c0 # rest)")
      case Nil
      from rec [of 0] obtain a' where
        a': "sub_from fl r (Some x) (a1 @ c0 # rest) 0 = a' @ sub_from fl r ?q (c0 # rest) 0"
          "set a' \<subseteq> set a1" by auto
      from Nil k0 have "sub_from fl r p ((x # a1) @ c0 # rest) k =
          x # sub_from fl r (Some x) (a1 @ c0 # rest) 0" by simp
      with a' show ?thesis unfolding q by (intro exI [of _ "x # a'"]) auto
    next
      case (Cons n ns)
      show ?thesis
      proof (cases "n = 0")
        case True
        from rec [of 0] obtain a' where
          a': "sub_from fl r (Some x) (a1 @ c0 # rest) 0 = a' @ sub_from fl r ?q (c0 # rest) 0"
            "set a' \<subseteq> set a1" by auto
        from Cons True k0 have "sub_from fl r p ((x # a1) @ c0 # rest) k =
            x # sub_from fl r (Some x) (a1 @ c0 # rest) 0" by simp
        with a' show ?thesis unfolding q by (intro exI [of _ "x # a'"]) auto
      next
        case False
        from Cons have "n \<in> set (rmatch fl r p ((x # a1) @ c0 # rest))" by simp
        from rmatch_consumes [OF this]
        have all: "\<forall>c \<in> set (take n ((x # a1) @ c0 # rest)). rx_chars fl r c" by simp
        have "n \<le> length (x # a1)"
        proof (rule ccontr)
          assume "\<not> n \<le> length (x # a1)"
          then have "c0 \<in> set (take n ((x # a1) @ c0 # rest))"
            by (auto simp: take_Cons' in_set_conv_nth nth_append split: if_splits
                intro!: exI [of _ "length a1 + 1"])
          with all chars show False by blast
        qed
        with False have "n - 1 \<le> length a1" by simp
        from rec [OF this] obtain a' where
          a': "sub_from fl r (Some x) (a1 @ c0 # rest) (n - 1) = a' @ sub_from fl r ?q (c0 # rest) 0"
            "set a' \<subseteq> set a1" by blast
        from Cons False k0 have "sub_from fl r p ((x # a1) @ c0 # rest) k =
            sub_from fl r (Some x) (a1 @ c0 # rest) (n - 1)" by simp
        with a' show ?thesis unfolding q by (intro exI [of _ a']) auto
      qed
    qed
  qed
qed

lemma sub_frame:
  assumes trig: "\<And>p s. rmatch fl r p s \<noteq> [] \<Longrightarrow>
      ((p = None \<or> p = Some newline) \<and> (\<exists>t. s = CHR 0x60 # t)) \<or> (\<exists>t. s = newline # CHR 0x60 # t)"
    and nb: "\<not> rx_chars fl r CHR ''{''"
    and lsf: "line_start_free None (CHR ''{'' # mid @ [CHR ''}''])"
  shows "\<exists>a' b'. re_sub_empty fl r (a @ CHR ''{'' # mid @ CHR ''}'' # b) = a' @ CHR ''{'' # mid @ CHR ''}'' # b' \<and>
           set a' \<subseteq> set a \<and> set b' \<subseteq> set b"
proof -
  let ?ob = "CHR ''{'' # mid @ [CHR ''}'']"
  let ?q = "if a = [] then None else Some (last a)"
  from sub_prefix [OF nb, of 0 a None "mid @ CHR ''}'' # b"] obtain a' where
    a': "sub_from fl r None (a @ CHR ''{'' # mid @ CHR ''}'' # b) 0 =
           a' @ sub_from fl r ?q (CHR ''{'' # mid @ CHR ''}'' # b) 0" "set a' \<subseteq> set a"
    by auto
  from lsf have l: "line_start_free ?q ?ob" by (rule lsf_weaken)
  have "last ?ob \<noteq> newline" by (simp add: newline_def)
  from sub_inside [OF trig l _ this, where b = b]
  have "sub_from fl r ?q (?ob @ b) 0 = ?ob @ sub_from fl r (Some (last ?ob)) b 0" by simp
  then have "sub_from fl r ?q (CHR ''{'' # mid @ CHR ''}'' # b) 0 =
      CHR ''{'' # mid @ CHR ''}'' # sub_from fl r (Some (last ?ob)) b 0" by simp
  with a' sub_set [of fl r "Some (last ?ob)" b 0] show ?thesis
    unfolding re_sub_empty_def
    by (intro exI [of _ a'] exI [of _ "sub_from fl r (Some (last ?ob)) b 0"]) simp
qed

lemma dropWhile_keep: "\<not> P y \<Longrightarrow> dropWhile P (xs @ y # ys) = dropWhile P xs @ y # ys"
  by (induction xs) auto

lemma brace_not_space: "\<not> is_space CHR ''{''" "\<not> is_space CHR ''}''"
  by (simp_all add: is_space_def in_range_def)

lemma strip_frame:
  "\<exists>a' b'. strip (a @ CHR ''{'' # mid @ CHR ''}'' # b) = a' @ CHR ''{'' # mid @ CHR ''}'' # b' \<and>
           set a' \<subseteq> set a \<and> set b' \<subseteq> set b"
proof -
  let ?a = "dropWhile is_space a" and ?b = "rev (dropWhile is_space (rev b))"
  have 1: "dropWhile is_space (a @ CHR ''{'' # mid @ CHR ''}'' # b) = ?a @ CHR ''{'' # mid @ CHR ''}'' # b"
    by (rule dropWhile_keep) (rule brace_not_space)
  have "rev (?a @ CHR ''{'' # mid @ CHR ''}'' # b) = rev b @ CHR ''}'' # (rev mid @ CHR ''{'' # rev ?a)"
    by simp
  then have 2: "dropWhile is_space (rev (?a @ CHR ''{'' # mid @ CHR ''}'' # b)) =
      dropWhile is_space (rev b) @ CHR ''}'' # (rev mid @ CHR ''{'' # rev ?a)"
    using dropWhile_keep [of is_space "CHR ''}''" "rev b" "rev mid @ CHR ''{'' # rev ?a"]
      brace_not_space(2) by simp
  have "strip (a @ CHR ''{'' # mid @ CHR ''}'' # b) = ?a @ CHR ''{'' # mid @ CHR ''}'' # ?b"
    unfolding strip_def 1 2 by simp
  moreover have "set ?a \<subseteq> set a" by (auto dest: set_dropWhileD)
  moreover have "set ?b \<subseteq> set b" by (auto dest: set_dropWhileD)
  ultimately show ?thesis by blast
qed

lemma cleaned_frame:
  assumes lsf: "line_start_free None (CHR ''{'' # mid @ [CHR ''}''])"
  shows "\<exists>a' b'. cleaned (a @ CHR ''{'' # mid @ CHR ''}'' # b) = a' @ CHR ''{'' # mid @ CHR ''}'' # b' \<and>
           set a' \<subseteq> set a \<and> set b' \<subseteq> set b"
proof -
  from strip_frame [of a mid b] obtain a1 b1 where
    s1: "strip (a @ CHR ''{'' # mid @ CHR ''}'' # b) = a1 @ CHR ''{'' # mid @ CHR ''}'' # b1"
      "set a1 \<subseteq> set a" "set b1 \<subseteq> set b" by blast
  have t1: "\<And>p s. rmatch ml_flags fence_open_rx p s \<noteq> [] \<Longrightarrow>
      ((p = None \<or> p = Some newline) \<and> (\<exists>t. s = CHR 0x60 # t)) \<or> (\<exists>t. s = newline # CHR 0x60 # t)"
    using fence_open_trigger by blast
  have t2: "\<And>p s. rmatch ml_flags fence_close_rx p s \<noteq> [] \<Longrightarrow>
      ((p = None \<or> p = Some newline) \<and> (\<exists>t. s = CHR 0x60 # t)) \<or> (\<exists>t. s = newline # CHR 0x60 # t)"
    using fence_close_trigger by blast
  from sub_frame [OF t1 fence_no_brace(1) lsf, of a1 b1] obtain a2 b2 where
    s2: "re_sub_empty ml_flags fence_open_rx (a1 @ CHR ''{'' # mid @ CHR ''}'' # b1) =
           a2 @ CHR ''{'' # mid @ CHR ''}'' # b2" "set a2 \<subseteq> set a1" "set b2 \<subseteq> set b1" by blast
  from sub_frame [OF t2 fence_no_brace(2) lsf, of a2 b2] obtain a3 b3 where
    s3: "re_sub_empty ml_flags fence_close_rx (a2 @ CHR ''{'' # mid @ CHR ''}'' # b2) =
           a3 @ CHR ''{'' # mid @ CHR ''}'' # b3" "set a3 \<subseteq> set a2" "set b3 \<subseteq> set b2" by blast
  from strip_frame [of a3 mid b3] obtain a4 b4 where
    s4: "strip (a3 @ CHR ''{'' # mid @ CHR ''}'' # b3) = a4 @ CHR ''{'' # mid @ CHR ''}'' # b4"
      "set a4 \<subseteq> set a3" "set b4 \<subseteq> set b3" by blast
  have "cleaned (a @ CHR ''{'' # mid @ CHR ''}'' # b) = a4 @ CHR ''{'' # mid @ CHR ''}'' # b4"
    unfolding cleaned_def Let_def s1(1) s2(1) s3(1) s4(1) ..
  moreover have "set a4 \<subseteq> set a" using s1(2) s2(2) s3(2) s4(2) by blast
  moreover have "set b4 \<subseteq> set b" using s1(3) s2(3) s3(3) s4(3) by blast
  ultimately show ?thesis by blast
qed

subsection \<open>The object is found between the first opening and the last closing brace\<close>

lemma dotall_case: "\<not> ignorecase dotall_flags"
  by (simp add: dotall_flags_def)

lemma braces_shape:
  "braces_rx = Cat (At (Lit CHR ''{'')) (Cat (Rep Dot 0 None) (Cat (At (Lit CHR ''}'')) Eps))"
  by (simp add: braces_rx_def cats_def)

lemma braces_need:
  assumes "rmatch dotall_flags braces_rx p s \<noteq> []"
  shows "\<exists>rest. s = CHR ''{'' # rest \<and> CHR ''}'' \<in> set rest"
proof -
  from rmatch_Cat_Lit [OF assms [unfolded braces_shape] dotall_case] obtain t where
    t: "s = CHR ''{'' # t"
      "rmatch dotall_flags (Cat (Rep Dot 0 None) (Cat (At (Lit CHR ''}'')) Eps)) (Some CHR ''{'') t \<noteq> []"
    by blast
  from t(2) obtain n where "n \<in> set (rmatch dotall_flags (Cat (Rep Dot 0 None) (Cat (At (Lit CHR ''}'')) Eps))
      (Some CHR ''{'') t)" by (meson last_in_set)
  then obtain n1 m where
    m: "m \<in> set (rmatch dotall_flags (Cat (At (Lit CHR ''}'')) Eps) (prev_at (Some CHR ''{'') t n1) (drop n1 t))"
    unfolding rmatch_Cat_iff by blast
  then have "rmatch dotall_flags (Cat (At (Lit CHR ''}'')) Eps) (prev_at (Some CHR ''{'') t n1) (drop n1 t) \<noteq> []"
    by (metis empty_iff empty_set)
  from rmatch_Cat_Lit [OF this dotall_case] obtain u where "drop n1 t = CHR ''}'' # u" by blast
  then have "CHR ''}'' \<in> set (drop n1 t)" by simp
  then have "CHR ''}'' \<in> set t" by (rule in_set_dropD)
  with t(1) show ?thesis by blast
qed

lemma close_brace_at:
  "rmatch dotall_flags (Cat (At (Lit CHR ''}'')) Eps) q s =
     (case s of [] \<Rightarrow> [] | y # _ \<Rightarrow> if y = CHR ''}'' then [1] else [])"
  by (cases s) (simp_all add: dotall_flags_def)

lemma concat_map_nil: "(\<And>x. x \<in> set xs \<Longrightarrow> f x = []) \<Longrightarrow> concat (map f xs) = []"
  by (induction xs) auto

lemma braces_greedy:
  assumes "CHR ''}'' \<notin> set b"
  shows "\<exists>tl. rmatch dotall_flags braces_rx p (CHR ''{'' # mid @ CHR ''}'' # b) = (length mid + 2) # tl"
proof -
  let ?rest = "mid @ CHR ''}'' # b"
  let ?Y = "Cat (At (Lit CHR ''}'')) Eps"
  let ?q = "Some CHR ''{''"
  let ?F = "\<lambda>n. map (\<lambda>m. n + m) (rmatch dotall_flags ?Y (prev_at ?q ?rest n) (drop n ?rest))"
  let ?M = "length mid" and ?L = "length ?rest"
  have tw: "takeWhile (atom_match dotall_flags Dot) ?rest = ?rest"
    by (simp add: dotall_flags_def)
  have rep: "rmatch dotall_flags (Cat (Rep Dot 0 None) ?Y) ?q ?rest = concat (map ?F (rev [0..<Suc ?L]))"
    by (simp only: rmatch.simps tw Let_def option.case)
  have "[0..<?M + (Suc ?L - ?M)] = [0..<?M] @ [?M..<?M + (Suc ?L - ?M)]"
    by (rule upt_add_eq_append) simp
  then have "[0..<Suc ?L] = [0..<?M] @ [?M..<Suc ?L]" by simp
  also have "[?M..<Suc ?L] = ?M # [Suc ?M..<Suc ?L]"
    by (rule upt_conv_Cons) simp
  finally have split: "rev [0..<Suc ?L] = rev [Suc ?M..<Suc ?L] @ ?M # rev [0..<?M]" by simp
  have high: "?F n = []" if "n \<in> set (rev [Suc ?M..<Suc ?L])" for n
  proof -
    from that have "Suc ?M \<le> n \<and> n < Suc ?L" by (simp only: set_rev set_upt atLeastLessThan_iff)
    then have n: "Suc ?M \<le> n" ..
    then obtain k where k: "n = Suc ?M + k" using le_Suc_ex by blast
    have "drop n ?rest = drop (n - Suc ?M) b" unfolding k by simp
    moreover have "\<And>y ys. drop (n - Suc ?M) b = y # ys \<Longrightarrow> y \<noteq> CHR ''}''"
      using assms by (metis in_set_dropD list.set_intros(1))
    ultimately show ?thesis
      unfolding close_brace_at by (auto split: list.splits)
  qed
  have at: "?F ?M = [?M + 1]"
    unfolding close_brace_at by simp
  have "concat (map ?F (rev [0..<Suc ?L])) = (?M + 1) # concat (map ?F (rev [0..<?M]))"
    unfolding split by (simp only: map_append concat_append list.map concat.simps
        concat_map_nil [of "rev [Suc ?M..<Suc ?L]" ?F, OF high] at append.simps)
  with rep have "rmatch dotall_flags (Cat (Rep Dot 0 None) ?Y) ?q ?rest =
      (?M + 1) # concat (map ?F (rev [0..<?M]))" by simp
  then show ?thesis
    unfolding braces_shape by (simp add: prev_at_def dotall_flags_def)
qed

lemma braces_need_head: "c \<noteq> CHR ''{'' \<Longrightarrow> rmatch dotall_flags braces_rx p (c # cs) = []"
  using braces_need [of p "c # cs"] by auto

lemma search_skip:
  assumes "CHR ''{'' \<notin> set a"
  shows "search_from dotall_flags braces_rx p (a @ s) i =
         search_from dotall_flags braces_rx (if a = [] then p else Some (last a)) s (i + length a)"
  using assms
proof (induction a arbitrary: p i)
  case Nil
  then show ?case by simp
next
  case (Cons c a)
  then have c: "c \<noteq> CHR ''{''" and a: "CHR ''{'' \<notin> set a" by auto
  show ?case
    using Cons.IH [OF a, of "Some c" "Suc i"] braces_need_head [OF c, of p "a @ s"]
    by simp
qed

lemma isolate_frame:
  assumes "CHR ''{'' \<notin> set a" "CHR ''}'' \<notin> set b"
  shows "isolate (a @ CHR ''{'' # mid @ CHR ''}'' # b) = CHR ''{'' # mid @ [CHR ''}'']"
proof -
  let ?s = "CHR ''{'' # mid @ CHR ''}'' # b"
  let ?q = "if a = [] then None else Some (last a)"
  from braces_greedy [OF assms(2), of ?q mid] obtain tl where
    g: "rmatch dotall_flags braces_rx ?q ?s = (length mid + 2) # tl" by blast
  have "re_search dotall_flags braces_rx (a @ ?s) = search_from dotall_flags braces_rx ?q ?s (0 + length a)"
    unfolding re_search_def by (rule search_skip [OF assms(1)])
  also have "\<dots> = Some (length a, length mid + 2)" using g by simp
  finally show ?thesis by (simp add: isolate_def)
qed

lemma extract_frame:
  assumes ok: "json_loads (CHR ''{'' # mid @ [CHR ''}'']) = Inr v"
    and pre: "CHR ''{'' \<notin> set pre" and post: "CHR ''}'' \<notin> set post"
  shows "extract_json_from_response (pre @ CHR ''{'' # mid @ CHR ''}'' # post) = Inr v"
proof -
  from ok have "line_start_free None (CHR ''{'' # mid @ [CHR ''}''])" by (rule json_line_start_free)
  from cleaned_frame [OF this, of pre post] obtain a b where
    c: "cleaned (pre @ CHR ''{'' # mid @ CHR ''}'' # post) = a @ CHR ''{'' # mid @ CHR ''}'' # b"
    and "set a \<subseteq> set pre" "set b \<subseteq> set post" by blast
  with pre post have "CHR ''{'' \<notin> set a" "CHR ''}'' \<notin> set b" by auto
  from isolate_frame [OF this] have "isolate (cleaned (pre @ CHR ''{'' # mid @ CHR ''}'' # post)) =
      CHR ''{'' # mid @ [CHR ''}'']" unfolding c .
  then show ?thesis using ok by (simp add: extract_json_from_response_def)
qed

subsection \<open>A text without a pair of braces\<close>

lemma subseq_strip: "subseq (strip s) s"
proof -
  have "suffix (dropWhile is_space (rev (dropWhile is_space s))) (rev (dropWhile is_space s))"
    by (rule suffix_dropWhile)
  then have "prefix (strip s) (dropWhile is_space s)"
    unfolding strip_def suffix_to_prefix by simp
  then have "subseq (strip s) (dropWhile is_space s)" by (rule prefix_imp_subseq)
  moreover have "subseq (dropWhile is_space s) s"
    by (rule suffix_imp_subseq) (rule suffix_dropWhile)
  ultimately show ?thesis by (rule subseq_order.order_trans)
qed

lemma subseq_sub_from: "subseq (sub_from fl r p s k) s"
  by (induction s arbitrary: p k) (auto split: list.splits)

lemma subseq_cleaned: "subseq (cleaned t) t"
proof -
  have 1: "subseq (strip t) t" by (rule subseq_strip)
  have 2: "subseq (re_sub_empty ml_flags fence_open_rx (strip t)) (strip t)"
    unfolding re_sub_empty_def by (rule subseq_sub_from)
  have 3: "subseq (re_sub_empty ml_flags fence_close_rx (re_sub_empty ml_flags fence_open_rx (strip t)))
      (re_sub_empty ml_flags fence_open_rx (strip t))"
    unfolding re_sub_empty_def by (rule subseq_sub_from)
  have 4: "subseq (cleaned t) (re_sub_empty ml_flags fence_close_rx (re_sub_empty ml_flags fence_open_rx (strip t)))"
    unfolding cleaned_def Let_def by (rule subseq_strip)
  from 4 3 have "subseq (cleaned t) (re_sub_empty ml_flags fence_open_rx (strip t))"
    by (rule subseq_order.order_trans)
  from this 2 have "subseq (cleaned t) (strip t)" by (rule subseq_order.order_trans)
  from this 1 show ?thesis by (rule subseq_order.order_trans)
qed

lemma pair_subseq: "y \<in> set rest \<Longrightarrow> subseq [x, y] (x # rest)"
  by (simp add: subseq_singleton_left)

lemma braces_none:
  assumes "\<not> subseq ''{}'' s"
  shows "rmatch dotall_flags braces_rx p s = []"
proof (rule ccontr)
  assume "rmatch dotall_flags braces_rx p s \<noteq> []"
  from braces_need [OF this] obtain rest where "s = CHR ''{'' # rest" "CHR ''}'' \<in> set rest" by blast
  then have "subseq ''{}'' s" using pair_subseq by simp
  with assms show False ..
qed

lemma search_none:
  assumes "\<not> subseq ''{}'' s"
  shows "search_from dotall_flags braces_rx p s i = None"
  using assms
proof (induction s arbitrary: p i)
  case Nil
  then show ?case using braces_none [of "[]" p] by simp
next
  case (Cons c cs)
  have "\<not> subseq ''{}'' cs"
  proof
    assume "subseq ''{}'' cs"
    then have "subseq ''{}'' (c # cs)" by (rule list_emb_Cons)
    with Cons.prems show False ..
  qed
  from Cons.IH [OF this] braces_none [OF Cons.prems, of p] show ?case by simp
qed

lemma rfind_None: "rfind_char y s = None \<longleftrightarrow> y \<notin> set s"
  by (induction s) (auto split: option.splits)

lemma find_before_rfind:
  assumes "find_char x s = Some i" "rfind_char y s = Some j" "x \<noteq> y" "\<not> subseq [x, y] s"
  shows "j < i"
  using assms
proof (induction s arbitrary: i j)
  case Nil
  then show ?case by simp
next
  case (Cons c cs)
  show ?case
  proof (cases "c = x")
    case True
    have "y \<notin> set cs"
    proof
      assume "y \<in> set cs"
      then have "subseq [x, y] (x # cs)" by (rule pair_subseq)
      with Cons.prems(4) True show False by simp
    qed
    then have "rfind_char y cs = None" by (simp add: rfind_None)
    with Cons.prems(2,3) True show ?thesis by simp
  next
    case False
    with Cons.prems(1) have "map_option Suc (find_char x cs) = Some i" by simp
    then obtain i' where i: "find_char x cs = Some i'" "i = Suc i'"
      by (cases "find_char x cs") simp_all
    have n: "\<not> subseq [x, y] cs"
    proof
      assume "subseq [x, y] cs"
      then have "subseq [x, y] (c # cs)" by (rule list_emb_Cons)
      with Cons.prems(4) show False ..
    qed
    show ?thesis
    proof (cases "rfind_char y cs")
      case None
      with Cons.prems(2) have "j = 0" by (simp split: if_splits)
      with i show ?thesis by simp
    next
      case (Some k)
      with Cons.prems(2) have "j = Suc k" by simp
      with Cons.IH [OF i(1) Some Cons.prems(3) n] i show ?thesis by simp
    qed
  qed
qed

lemma json_loads_empty: "json_loads [] = Inl JSONDecodeError"
  by (simp add: json_loads_def)

lemma extract_no_pair:
  assumes "\<not> subseq ''{}'' t"
  shows "extract_json_from_response t = json_loads (cleaned t)"
proof -
  let ?c = "cleaned t"
  have n: "\<not> subseq ''{}'' ?c"
  proof
    assume "subseq ''{}'' ?c"
    from this subseq_cleaned [of t] have "subseq ''{}'' t" by (rule subseq_order.order_trans)
    with assms show False ..
  qed
  then have "re_search dotall_flags braces_rx ?c = None"
    unfolding re_search_def by (rule search_none)
  then have iso: "isolate ?c = ?c" by (simp add: isolate_def)
  show ?thesis
  proof (cases "json_loads ?c")
    case (Inr v)
    then show ?thesis by (simp add: extract_json_from_response_def iso)
  next
    case (Inl e)
    have e: "e = JSONDecodeError" by (cases e) simp
    show ?thesis
    proof (cases "find_char CHR ''{'' ?c")
      case None
      with Inl show ?thesis by (simp add: extract_json_from_response_def iso)
    next
      case (Some i)
      show ?thesis
      proof (cases "rfind_char CHR ''}'' ?c")
        case None
        with Inl Some show ?thesis by (simp add: extract_json_from_response_def iso)
      next
        case (Some j)
        from find_before_rfind [OF \<open>find_char CHR ''{'' ?c = Some i\<close> Some _ n] have "j < i" by simp
        then have z: "j + 1 - i = 0" by simp
        from Inl Some \<open>find_char CHR ''{'' ?c = Some i\<close> e show ?thesis
          by (simp add: extract_json_from_response_def iso json_loads_empty z del: One_nat_def add_Suc_right)
      qed
    qed
  qed
qed

lemma sample_object:
  "json_loads (CHR ''{'' # ''\"a\": 1'' @ [CHR ''}'']) = Inr (JObj [(codes ''a'', JInt 1)])"
  by code_simp

lemma sample_frame:
  "CHR ''{'' \<notin> set (''Here it is:'' @ [newline, CHR 0x60, CHR 0x60, CHR 0x60] @ ''json'' @ [newline])"
  "CHR ''}'' \<notin> set ([newline, CHR 0x60, CHR 0x60, CHR 0x60, newline] @ ''Done.'')"
  "\<not> subseq ''{}'' ''} no object {''"
  by code_simp+

lemma sample_plain: "json_loads (cleaned ''} no object {'') = Inl JSONDecodeError"
  by code_simp

lemma sample_fenced:
  "cleaned ([CHR 0x60, CHR 0x60, CHR 0x60] @ ''json'' @ [newline] @ ''[1, 2]'' @
            [newline, CHR 0x60, CHR 0x60, CHR 0x60]) = ''[1, 2]''"
  "extract_json_from_response
     ([CHR 0x60, CHR 0x60, CHR 0x60] @ ''json'' @ [newline] @ ''[1, 2]'' @
      [newline, CHR 0x60, CHR 0x60, CHR 0x60]) = Inr (JArr [JInt 1, JInt 2])"
  by code_simp+

text \<open>
  C6, as the claim states it, fails in both halves. A text without any brace that is a
  JSON value is returned, not refused: "42" gives the number 42. And prose with braces of
  its own defeats the search for the object: the object of \<^verbatim>\<open>see {"a": 1} and {x}\<close> is not
  recovered, the call raises the parse error.
\<close>

theorem extract_json_counterexample:
  "extract_json_from_response ''42'' = Inr (JInt 42) \<and>
   json_loads ''{\"a\": 1}'' = Inr (JObj [(codes ''a'', JInt 1)]) \<and>
   extract_json_from_response ''see {\"a\": 1} and {x}'' = Inl JSONDecodeError"
  by code_simp

text \<open>
  C6, amended. Let a text consist of a part without opening brace, then a JSON object
  text, from its opening to its closing brace, that \<^verbatim>\<open>json.loads\<close> accepts, then a part
  without closing brace; fences and prose are such parts. Then
  \<open>extract_json_from_response\<close> returns the value of the object text. And for a text in
  which no opening brace is followed by a closing brace, it returns what \<^verbatim>\<open>json.loads\<close>
  returns for the text stripped of white space and fences: the parse error, unless that
  text is a JSON value. So the array \<^verbatim>\<open>[1, 2]\<close> between an opening \<^verbatim>\<open>```json\<close> line and a
  closing \<^verbatim>\<open>```\<close> line is returned as the array.
\<close>

theorem extract_json_framed:
  "(json_loads (CHR ''{'' # mid @ [CHR ''}'']) = Inr v \<and> CHR ''{'' \<notin> set pre \<and> CHR ''}'' \<notin> set post \<longrightarrow>
      extract_json_from_response (pre @ CHR ''{'' # mid @ CHR ''}'' # post) = Inr v) \<and>
   (\<not> subseq ''{}'' t \<longrightarrow> extract_json_from_response t = json_loads (cleaned t)) \<and>
   cleaned ([CHR 0x60, CHR 0x60, CHR 0x60] @ ''json'' @ [newline] @ ''[1, 2]'' @
            [newline, CHR 0x60, CHR 0x60, CHR 0x60]) = ''[1, 2]'' \<and>
   extract_json_from_response
     ([CHR 0x60, CHR 0x60, CHR 0x60] @ ''json'' @ [newline] @ ''[1, 2]'' @
      [newline, CHR 0x60, CHR 0x60, CHR 0x60]) = Inr (JArr [JInt 1, JInt 2])"
  using extract_frame [of mid v pre post] extract_no_pair [of t] sample_fenced by blast

theorem extract_json_framed_witness:
  "json_loads (CHR ''{'' # ''\"a\": 1'' @ [CHR ''}'']) = Inr (JObj [(codes ''a'', JInt 1)]) \<and>
   CHR ''{'' \<notin> set (''Here it is:'' @ [newline, CHR 0x60, CHR 0x60, CHR 0x60] @ ''json'' @ [newline]) \<and>
   CHR ''}'' \<notin> set ([newline, CHR 0x60, CHR 0x60, CHR 0x60, newline] @ ''Done.'') \<and>
   extract_json_from_response
     ((''Here it is:'' @ [newline, CHR 0x60, CHR 0x60, CHR 0x60] @ ''json'' @ [newline]) @
      CHR ''{'' # ''\"a\": 1'' @ CHR ''}'' # ([newline, CHR 0x60, CHR 0x60, CHR 0x60, newline] @ ''Done.'')) =
     Inr (JObj [(codes ''a'', JInt 1)]) \<and>
   \<not> subseq ''{}'' ''} no object {'' \<and>
   extract_json_from_response ''} no object {'' = Inl JSONDecodeError"
proof -
  note T = extract_json_framed [of "''\"a\": 1''" "JObj [(codes ''a'', JInt 1)]"
      "''Here it is:'' @ [newline, CHR 0x60, CHR 0x60, CHR 0x60] @ ''json'' @ [newline]"
      "[newline, CHR 0x60, CHR 0x60, CHR 0x60, newline] @ ''Done.''" "''} no object {''"]
  from T sample_object sample_frame sample_plain show ?thesis by metis
qed

end
